theory Spec2Isabelle
  imports Main "HOL-Library.Sublist"
begin

section \<open>Strings and regular expressions\<close>

text \<open>
  A JavaScript string is a sequence of UTF-16 code units. The texts below are lists
  of code units, so that the fullwidth sign U+FF1C written by \<^verbatim>\<open>escapeDyadTags\<close>
  is a value like any other. \<open>lit\<close> turns an ASCII literal into such a list.
  Identifiers that the code only compares with fixed literals (chat mode, workflow
  step, violation type) are plain \<^typ>\<open>string\<close>s.
\<close>

type_synonym js_string = "nat list"

definition lit :: "string \<Rightarrow> js_string" where
  "lit s = map of_char s"

text \<open>\<^verbatim>\<open>text.includes(p)\<close>, \<^verbatim>\<open>s.startsWith(p)\<close>, \<^verbatim>\<open>s.endsWith(p)\<close>.\<close>

fun js_includes :: "js_string \<Rightarrow> js_string \<Rightarrow> bool" where
  "js_includes [] p = (p = [])"
| "js_includes (c # cs) p = (prefix p (c # cs) \<or> js_includes cs p)"

definition startsWith :: "js_string \<Rightarrow> js_string \<Rightarrow> bool" where
  "startsWith s p = prefix p s"

definition endsWith :: "js_string \<Rightarrow> js_string \<Rightarrow> bool" where
  "endsWith s p = suffix p s"

text \<open>The character classes \<^verbatim>\<open>\w\<close> and \<^verbatim>\<open>\s\<close> of ECMAScript (white space and
  line terminators), and the line terminators after which \<^verbatim>\<open>^\<close> matches under the
  \<^verbatim>\<open>m\<close> flag.\<close>

definition is_word :: "nat \<Rightarrow> bool" where
  "is_word c \<longleftrightarrow> (48 \<le> c \<and> c \<le> 57) \<or> (65 \<le> c \<and> c \<le> 90) \<or> c = 95 \<or> (97 \<le> c \<and> c \<le> 122)"

definition is_line_terminator :: "nat \<Rightarrow> bool" where
  "is_line_terminator c \<longleftrightarrow> c = 10 \<or> c = 13 \<or> c = 8232 \<or> c = 8233"

definition is_space :: "nat \<Rightarrow> bool" where
  "is_space c \<longleftrightarrow>
     c = 9 \<or> c = 11 \<or> c = 12 \<or> c = 32 \<or> c = 160 \<or> c = 5760 \<or> (8192 \<le> c \<and> c \<le> 8202) \<or>
     c = 8239 \<or> c = 8287 \<or> c = 12288 \<or> c = 65279 \<or> is_line_terminator c"

definition any_char :: "nat \<Rightarrow> bool" where
  "any_char c = True"

definition not_char :: "string \<Rightarrow> nat \<Rightarrow> bool" where
  "not_char excluded c \<longleftrightarrow> c \<notin> set (lit excluded)"

text \<open>\<^verbatim>\<open>s.trim()\<close> removes white space and line terminators at both ends.\<close>

definition trim :: "js_string \<Rightarrow> js_string" where
  "trim s = rev (dropWhile is_space (rev (dropWhile is_space s)))"

text \<open>Canonicalisation of a code unit under the \<^verbatim>\<open>i\<close> flag (without \<^verbatim>\<open>u\<close>): a code
  unit is never folded from outside ASCII into ASCII, so against the ASCII patterns
  used here only the letters a to z fold.\<close>

definition canonicalize :: "nat \<Rightarrow> nat" where
  "canonicalize c = (if 97 \<le> c \<and> c \<le> 122 then c - 32 else c)"

text \<open>
  A backtracking matcher. A state holds the groups captured so far, the code unit
  before the current position (for \<^verbatim>\<open>\b\<close> and \<^verbatim>\<open>^\<close>) and the rest of the input.
  A matcher returns every state in which its pattern can end, in the order in which
  the engine tries them: the head of the list is the match the engine reports.
\<close>

type_synonym mstate = "js_string list \<times> nat option \<times> js_string"
type_synonym matcher = "mstate \<Rightarrow> mstate list"

definition m_lit :: "string \<Rightarrow> matcher" where
  "m_lit p = (\<lambda>(caps, prev, s).
     if prefix (lit p) s
     then [(caps, (if p = [] then prev else Some (last (lit p))), drop (length p) s)]
     else [])"

fun lit_ci_prefix :: "js_string \<Rightarrow> js_string \<Rightarrow> bool" where
  "lit_ci_prefix [] s = True"
| "lit_ci_prefix (p # ps) [] = False"
| "lit_ci_prefix (p # ps) (c # cs) = (canonicalize p = canonicalize c \<and> lit_ci_prefix ps cs)"

definition m_lit_ci :: "string \<Rightarrow> matcher" where
  "m_lit_ci p = (\<lambda>(caps, prev, s).
     if lit_ci_prefix (lit p) s
     then [(caps, (if p = [] then prev else Some (last (take (length p) s))), drop (length p) s)]
     else [])"

definition m_cls :: "(nat \<Rightarrow> bool) \<Rightarrow> matcher" where
  "m_cls P = (\<lambda>(caps, prev, s).
     case s of [] \<Rightarrow> [] | c # cs \<Rightarrow> if P c then [(caps, Some c, cs)] else [])"

text \<open>\<^verbatim>\<open>[cls]*\<close> tries the longest run first, \<^verbatim>\<open>[cls]*?\<close> the shortest.\<close>

fun star_greedy :: "(nat \<Rightarrow> bool) \<Rightarrow> nat option \<Rightarrow> js_string \<Rightarrow> (nat option \<times> js_string) list" where
  "star_greedy P prev [] = [(prev, [])]"
| "star_greedy P prev (c # cs) =
     (if P c then star_greedy P (Some c) cs @ [(prev, c # cs)] else [(prev, c # cs)])"

fun star_lazy :: "(nat \<Rightarrow> bool) \<Rightarrow> nat option \<Rightarrow> js_string \<Rightarrow> (nat option \<times> js_string) list" where
  "star_lazy P prev [] = [(prev, [])]"
| "star_lazy P prev (c # cs) =
     (prev, c # cs) # (if P c then star_lazy P (Some c) cs else [])"

definition m_star :: "(nat \<Rightarrow> bool) \<Rightarrow> matcher" where
  "m_star P = (\<lambda>(caps, prev, s). map (Pair caps) (star_greedy P prev s))"

definition m_star_lazy :: "(nat \<Rightarrow> bool) \<Rightarrow> matcher" where
  "m_star_lazy P = (\<lambda>(caps, prev, s). map (Pair caps) (star_lazy P prev s))"

definition m_seq :: "matcher \<Rightarrow> matcher \<Rightarrow> matcher" where
  "m_seq a b = (\<lambda>st. concat (map b (a st)))"

definition m_plus :: "(nat \<Rightarrow> bool) \<Rightarrow> matcher" where
  "m_plus P = m_seq (m_cls P) (m_star P)"

definition m_group :: "matcher \<Rightarrow> matcher" where
  "m_group m = (\<lambda>(caps, prev, s).
     map (\<lambda>(caps', prev', r). (caps' @ [take (length s - length r) s], prev', r)) (m (caps, prev, s)))"

text \<open>\<^verbatim>\<open>\b\<close>: exactly one of the two neighbours is a word character. \<^verbatim>\<open>^\<close> under
  the \<^verbatim>\<open>m\<close> flag: the start of the input or the position after a line terminator.\<close>

definition m_word_boundary :: matcher where
  "m_word_boundary = (\<lambda>(caps, prev, s).
     let prevWord = (case prev of None \<Rightarrow> False | Some c \<Rightarrow> is_word c);
         nextWord = (case s of [] \<Rightarrow> False | c # cs \<Rightarrow> is_word c)
     in if prevWord \<noteq> nextWord then [(caps, prev, s)] else [])"

definition m_line_start :: matcher where
  "m_line_start = (\<lambda>(caps, prev, s).
     case prev of None \<Rightarrow> [(caps, prev, s)]
     | Some c \<Rightarrow> if is_line_terminator c then [(caps, prev, s)] else [])"

text \<open>\<^verbatim>\<open>re.test(s)\<close> for a regular expression used once: is there a position at
  which the pattern matches.\<close>

fun re_test_from :: "matcher \<Rightarrow> nat option \<Rightarrow> js_string \<Rightarrow> bool" where
  "re_test_from m prev [] = (m ([], prev, []) \<noteq> [])"
| "re_test_from m prev (c # cs) = (m ([], prev, c # cs) \<noteq> [] \<or> re_test_from m (Some c) cs)"

definition re_test :: "matcher \<Rightarrow> js_string \<Rightarrow> bool" where
  "re_test m s = re_test_from m None s"

text \<open>A match as \<^verbatim>\<open>exec\<close> returns it: \<^verbatim>\<open>match.index\<close>, \<^verbatim>\<open>match[0]\<close> and the
  captured groups \<^verbatim>\<open>match[1]\<close>, ...\<close>

record re_match =
  index :: nat
  matched :: js_string
  groups :: "js_string list"

definition match_here :: "matcher \<Rightarrow> nat option \<Rightarrow> nat \<Rightarrow> js_string \<Rightarrow> re_match option" where
  "match_here m prev i s =
     (case m ([], prev, s) of
        [] \<Rightarrow> None
      | (caps, prev', r) # rest \<Rightarrow>
          Some \<lparr>index = i, matched = take (length s - length r) s, groups = caps\<rparr>)"

text \<open>\<^verbatim>\<open>s.match(re)\<close> without the \<^verbatim>\<open>g\<close> flag: the leftmost match.\<close>

fun re_match_from :: "matcher \<Rightarrow> nat option \<Rightarrow> nat \<Rightarrow> js_string \<Rightarrow> re_match option" where
  "re_match_from m prev i [] = match_here m prev i []"
| "re_match_from m prev i (c # cs) =
     (case match_here m prev i (c # cs) of
        Some r \<Rightarrow> Some r
      | None \<Rightarrow> re_match_from m (Some c) (Suc i) cs)"

definition re_match_first :: "matcher \<Rightarrow> js_string \<Rightarrow> re_match option" where
  "re_match_first m s = re_match_from m None 0 s"

text \<open>
  The matches of a \<^verbatim>\<open>g\<close> regular expression from left to right, as the loop
  \<^verbatim>\<open>while ((match = re.exec(s)) !== null)\<close> and \<^verbatim>\<open>s.match(re)\<close> see them: after a
  match the search goes on behind it. \<open>k\<close> counts the code units of the last match
  that are still to be skipped. Every pattern scanned below starts with a literal,
  so no match is empty.
\<close>

fun re_scan :: "matcher \<Rightarrow> nat \<Rightarrow> nat option \<Rightarrow> nat \<Rightarrow> js_string \<Rightarrow> re_match list" where
  "re_scan m k prev i [] = []"
| "re_scan m k prev i (c # cs) =
     (if 0 < k then re_scan m (k - 1) (Some c) (Suc i) cs
      else (case match_here m prev i (c # cs) of
              None \<Rightarrow> re_scan m 0 (Some c) (Suc i) cs
            | Some r \<Rightarrow> r # re_scan m (length (matched r) - 1) (Some c) (Suc i) cs))"

definition re_match_all :: "matcher \<Rightarrow> js_string \<Rightarrow> re_match list" where
  "re_match_all m s = re_scan m 0 None 0 s"

text \<open>\<^verbatim>\<open>s.replace(/pat/g, rep)\<close> for a pattern that is a literal.\<close>

function replaceAll :: "js_string \<Rightarrow> js_string \<Rightarrow> js_string \<Rightarrow> js_string" where
  "replaceAll pat rep s =
     (if pat = [] \<or> s = [] then s
      else if prefix pat s then rep @ replaceAll pat rep (drop (length pat) s)
      else hd s # replaceAll pat rep (tl s))"
  by pat_completeness auto
termination
  by (relation "measure (\<lambda>(pat, rep, s). length s)") auto

text \<open>The decimal digits of a number, as a template literal prints it.\<close>

function show_nat :: "nat \<Rightarrow> js_string" where
  "show_nat n = (if n < 10 then [48 + n] else show_nat (n div 10) @ [48 + n mod 10])"
  by pat_completeness auto
termination
  by (relation "measure id") auto

text \<open>\<^verbatim>\<open>s.substring(0, 100) + (s.length > 100 ? "..." : "")\<close>.\<close>

definition snippet100 :: "js_string \<Rightarrow> js_string" where
  "snippet100 s = take 100 s @ (if length s > 100 then lit ''...'' else [])"

section \<open>Response validator\<close>

text \<open>The detectors of \<^verbatim>\<open>response_validator.ts\<close>. The spec calls the five violation
  types prohibited-markup-block (\<open>code_block\<close>), prohibited-tool-reference
  (\<open>codex_tool\<close>), mode-incompatible-directive (\<open>mode_violation\<close>),
  malformed-tag-structure (\<open>malformed_tag\<close>) and non-content-inside-write
  (\<open>prohibited_content\<close>).\<close>

datatype ViolationType = code_block | codex_tool | mode_violation | malformed_tag | prohibited_content

datatype Severity = critical | warning

record ValidationViolation =
  vtype :: ViolationType
  message :: js_string
  vcontext :: js_string
  severity :: Severity

record ValidationResult =
  isValid :: bool
  violations :: "ValidationViolation list"
  warnings :: "ValidationViolation list"

record ValidationContext =
  vc_mode :: string
  vc_workflowStep :: "string option"

text \<open>\<^verbatim>\<open>/```[\s\S]*?```/g\<close>\<close>

definition codeBlockRegex :: matcher where
  "codeBlockRegex = m_seq (m_lit ''```'') (m_seq (m_star_lazy any_char) (m_lit ''```''))"

definition detectMarkdownCodeBlocks :: "js_string \<Rightarrow> ValidationViolation list" where
  "detectMarkdownCodeBlocks response =
     map (\<lambda>match.
            \<lparr>vtype = code_block,
             message = lit ''Markdown code blocks are prohibited for file content. Use <dyad-write> tags instead.'',
             vcontext = snippet100 (matched match),
             severity = critical\<rparr>)
         (re_match_all codeBlockRegex response)"

definition prohibitedTools :: "string list" where
  "prohibitedTools = [''apply_patch'', ''turbo_edit'', ''patch_file'', ''edit_file'', ''write_file'']"

text \<open>\<^verbatim>\<open>new RegExp(`\\b${tool}\\b`, "gi")\<close>\<close>

definition toolRegex :: "string \<Rightarrow> matcher" where
  "toolRegex tool = m_seq m_word_boundary (m_seq (m_lit_ci tool) m_word_boundary)"

definition detectCodexCliTools :: "js_string \<Rightarrow> ValidationViolation list" where
  "detectCodexCliTools response =
     concat (map (\<lambda>tool.
        if re_test (toolRegex tool) response
        then [\<lparr>vtype = codex_tool,
               message = lit ''Detected Codex CLI tool \"'' @ lit tool @
                         lit ''\". These tools do not exist in Dyad. Use <dyad-write> tags instead.'',
               vcontext = lit ''Found reference to: '' @ lit tool,
               severity = critical\<rparr>]
        else []) prohibitedTools)"

text \<open>\<^verbatim>\<open>/<dyad-write[^>]*>/\<close> and \<^verbatim>\<open>/<\/dyad-write>/\<close>\<close>

definition writeOpenRegex :: matcher where
  "writeOpenRegex = m_seq (m_lit ''<dyad-write'') (m_seq (m_star (not_char ''>'')) (m_lit ''>''))"

definition writeCloseRegex :: matcher where
  "writeCloseRegex = m_lit ''</dyad-write>''"

definition validateDyadTagStructure :: "js_string \<Rightarrow> ValidationViolation list" where
  "validateDyadTagStructure response =
     (let openMatches = re_match_all writeOpenRegex response;
          closeMatches = re_match_all writeCloseRegex response
      in if length openMatches \<noteq> length closeMatches
         then [\<lparr>vtype = malformed_tag,
                message = lit ''Mismatched dyad-write tags: '' @ show_nat (length openMatches) @
                          lit '' opening tags, '' @ show_nat (length closeMatches) @ lit '' closing tags'',
                vcontext = lit ''Found '' @ show_nat (length openMatches) @ lit '' <dyad-write>, '' @
                          show_nat (length closeMatches) @ lit '' </dyad-write>'',
                severity = critical\<rparr>]
         else [])"

text \<open>\<^verbatim>\<open>/<dyad-write[^>]*>([\s\S]*?)<\/dyad-write>/g\<close>\<close>

definition writeTagRegex :: matcher where
  "writeTagRegex =
     m_seq (m_lit ''<dyad-write'') (m_seq (m_star (not_char ''>'')) (m_seq (m_lit ''>'')
       (m_seq (m_group (m_star_lazy any_char)) (m_lit ''</dyad-write>''))))"

text \<open>The eight patterns, all with the flags \<^verbatim>\<open>im\<close>:
  \<^verbatim>\<open>/^Summary:/\<close>, \<^verbatim>\<open>/^Here's what I changed/\<close>, \<^verbatim>\<open>/^I've updated/\<close>, \<^verbatim>\<open>/^Click/\<close>,
  \<^verbatim>\<open>/^Please/\<close>, \<^verbatim>\<open>/^Now hit refresh/\<close>, \<^verbatim>\<open>/^-\s*Fixed/\<close>, \<^verbatim>\<open>/^-\s*Added/\<close>.\<close>

definition prohibitedPatterns :: "matcher list" where
  "prohibitedPatterns =
     [m_seq m_line_start (m_lit_ci ''Summary:''),
      m_seq m_line_start (m_lit_ci (''Here'' @ [CHR 0x27] @ ''s what I changed'')),
      m_seq m_line_start (m_lit_ci (''I'' @ [CHR 0x27] @ ''ve updated'')),
      m_seq m_line_start (m_lit_ci ''Click''),
      m_seq m_line_start (m_lit_ci ''Please''),
      m_seq m_line_start (m_lit_ci ''Now hit refresh''),
      m_seq m_line_start (m_seq (m_lit ''-'') (m_seq (m_star is_space) (m_lit_ci ''Fixed''))),
      m_seq m_line_start (m_seq (m_lit ''-'') (m_seq (m_star is_space) (m_lit_ci ''Added'')))]"

definition detectProhibitedInstructions :: "js_string \<Rightarrow> ValidationViolation list" where
  "detectProhibitedInstructions response =
     concat (map (\<lambda>match.
        let content = hd (groups match)
        in if list_ex (\<lambda>pattern. re_test pattern content) prohibitedPatterns
           then [\<lparr>vtype = prohibited_content,
                  message = lit ''Instructions or summaries found inside <dyad-write> tag. Only file content is allowed.'',
                  vcontext = snippet100 content,
                  severity = critical\<rparr>]
           else []) (re_match_all writeTagRegex response))"

text \<open>\<^verbatim>\<open>/<dyad-delete[^>]*>/\<close>, \<^verbatim>\<open>/<dyad-rename[^>]*>/\<close>, \<^verbatim>\<open>/<dyad-add-dependency[^>]*>/\<close>
  and \<^verbatim>\<open>/<dyad-write\s+path="([^"]+)"/g\<close>\<close>

definition tagOpenRegex :: "string \<Rightarrow> matcher" where
  "tagOpenRegex name = m_seq (m_lit name) (m_seq (m_star (not_char ''>'')) (m_lit ''>''))"

definition pathRegex :: matcher where
  "pathRegex =
     m_seq (m_lit ''<dyad-write'') (m_seq (m_plus is_space) (m_seq (m_lit ''path=\"'')
       (m_seq (m_group (m_plus (not_char ''\"''))) (m_lit ''\"''))))"

definition docs_violation :: "js_string \<Rightarrow> ValidationViolation" where
  "docs_violation filePath =
     \<lparr>vtype = mode_violation,
      message = lit ''Docs mode only allows markdown files in docs/ or README.md. Found: '' @ filePath,
      vcontext = filePath,
      severity = critical\<rparr>"

definition docs_check :: "js_string \<Rightarrow> ValidationViolation list" where
  "docs_check response =
     concat (map (\<lambda>pathMatch.
        let filePath = hd (groups pathMatch);
            isMarkdown = endsWith filePath (lit ''.md'');
            isDocsFolder = (startsWith filePath (lit ''docs/'') \<or> filePath = lit ''README.md'')
        in if \<not> isMarkdown \<or> \<not> isDocsFolder then [docs_violation filePath] else [])
       (re_match_all pathRegex response))"

definition planning_violation :: ValidationViolation where
  "planning_violation =
     \<lparr>vtype = mode_violation,
      message = lit ''Planning mode prohibits file creation/modification. Only markdown plans are allowed.'',
      vcontext = lit ''Found dyad tags in planning mode'',
      severity = critical\<rparr>"

definition agent_violation :: ValidationViolation where
  "agent_violation =
     \<lparr>vtype = mode_violation,
      message = lit ''Agent mode prohibits dyad tags. Use MCP tools (execute_command, web-search) instead.'',
      vcontext = lit ''Found dyad tags in agent mode'',
      severity = critical\<rparr>"

definition ask_violation :: ValidationViolation where
  "ask_violation =
     \<lparr>vtype = mode_violation,
      message = lit ''Ask mode prohibits file operations. This mode is for questions and explanations only.'',
      vcontext = lit ''Found dyad tags in ask mode'',
      severity = critical\<rparr>"

definition validateModeCompliance :: "js_string \<Rightarrow> ValidationContext \<Rightarrow> ValidationViolation list" where
  "validateModeCompliance response ctx =
     (let hasDyadWrite = re_test (tagOpenRegex ''<dyad-write'') response;
          hasDyadDelete = re_test (tagOpenRegex ''<dyad-delete'') response;
          hasDyadRename = re_test (tagOpenRegex ''<dyad-rename'') response;
          hasDyadAddDep = re_test (tagOpenRegex ''<dyad-add-dependency'') response;
          hasAnyDyadTag = (hasDyadWrite \<or> hasDyadDelete \<or> hasDyadRename \<or> hasDyadAddDep)
      in (if vc_workflowStep ctx = Some ''planning'' \<and> hasAnyDyadTag then [planning_violation] else [])
       @ (if vc_workflowStep ctx = Some ''docs'' \<and> hasDyadWrite then docs_check response else [])
       @ (if vc_mode ctx = ''agent'' \<and> hasAnyDyadTag then [agent_violation] else [])
       @ (if vc_mode ctx = ''ask'' \<and> hasAnyDyadTag then [ask_violation] else []))"

definition validateResponse :: "js_string \<Rightarrow> ValidationContext \<Rightarrow> ValidationResult" where
  "validateResponse response ctx =
     (let allViolations =
            detectMarkdownCodeBlocks response @ detectCodexCliTools response @
            validateDyadTagStructure response @ detectProhibitedInstructions response @
            validateModeCompliance response ctx;
          criticalViolations = filter (\<lambda>v. severity v = critical) allViolations;
          warnings = filter (\<lambda>v. severity v = warning) allViolations
      in \<lparr>isValid = (length criticalViolations = 0),
          violations = criticalViolations,
          warnings = warnings\<rparr>)"

section \<open>Fast monitor\<close>

text \<open>The class \<^verbatim>\<open>FastMonitor\<close> of \<^verbatim>\<open>fast_monitor.ts\<close>: its fields, and every method
  as a function from the monitor to a result and the monitor afterwards. The spec's
  prohibited-markup-block is the violation type \<open>markdown_code_block\<close> here.\<close>

record ViolationResult =
  hasViolation :: bool
  violationType :: "string option"
  correction :: "js_string option"
  shouldAbort :: "bool option"

record FastMonitor =
  fm_mode :: string
  fm_workflowStep :: "string option"
  detectedViolations :: "string set"

definition CACHED_CORRECTIONS :: "string \<Rightarrow> js_string" where
  "CACHED_CORRECTIONS key =
     (if key = ''markdown_code_block'' then
        lit ''STOP! You're using markdown code blocks (```) which are PROHIBITED.\<newline>\<newline>Use ONLY <dyad-write> tags:\<newline><dyad-write path=\"src/Component.tsx\" description=\"Create component\">\<newline>YOUR CODE HERE\<newline></dyad-write>\<newline>\<newline>Continue with <dyad-write> tags.''
      else if key = ''codex_cli_tool'' then
        lit ''STOP! Codex CLI tools (apply_patch, turbo_edit, etc.) DO NOT EXIST in Dyad.\<newline>\<newline>Use ONLY Dyad tags:\<newline><dyad-write path=\"...\">content</dyad-write>\<newline>\<newline>Continue using Dyad tags.''
      else if key = ''planning_file_creation'' then
        lit ''STOP! You're in PLANNING MODE - file creation is PROHIBITED.\<newline>\<newline>Write a Markdown plan only. Use write_to_file tool to create 'implementation_plan.md'.\<newline>\<newline>Continue with planning documentation only.''
      else if key = ''docs_non_markdown'' then
        lit ''STOP! DOCS MODE only allows .md files in docs/ directory.\<newline>\<newline>Only create documentation files.\<newline>\<newline>Continue with .md files only.''
      else if key = ''agent_dyad_tags'' then
        lit ''STOP! AGENT MODE does not support <dyad-write> or other Dyad tags.\<newline>\<newline>Use ONLY MCP tools:\<newline>- execute_command for shell commands\<newline>- web-search for information\<newline>\<newline>Continue with MCP tools only.''
      else [])"

text \<open>The constructor: \<^verbatim>\<open>params.workflowStep || null\<close> turns a missing or empty step
  into null; the set of detected violations starts empty.\<close>

definition new_FastMonitor :: "string \<Rightarrow> string option \<Rightarrow> FastMonitor" where
  "new_FastMonitor mode step =
     \<lparr>fm_mode = mode,
      fm_workflowStep = (case step of None \<Rightarrow> None | Some s \<Rightarrow> if s = [] then None else Some s),
      detectedViolations = {}\<rparr>"

text \<open>\<^verbatim>\<open>/```[\w]*\s*\n/\<close>\<close>

definition detectMarkdownCodeBlock :: "js_string \<Rightarrow> bool" where
  "detectMarkdownCodeBlock text =
     re_test (m_seq (m_lit ''```'') (m_seq (m_star is_word) (m_seq (m_star is_space) (m_lit ''\<newline>'')))) text"

definition detectCodexCliTool :: "js_string \<Rightarrow> bool" where
  "detectCodexCliTool text =
     list_ex (\<lambda>tool. js_includes text (lit tool))
       [''apply_patch'', ''turbo_edit'', ''patch_file'', ''edit_file'', ''write_file'']"

text \<open>\<^verbatim>\<open>/<dyad-write[^>]*path="[^"]*\.md"/\<close>\<close>

definition mdPathRegex :: matcher where
  "mdPathRegex =
     m_seq (m_lit ''<dyad-write'') (m_seq (m_star (not_char ''>'')) (m_seq (m_lit ''path=\"'')
       (m_seq (m_star (not_char ''\"'')) (m_lit ''.md\"''))))"

definition no_violation :: ViolationResult where
  "no_violation = \<lparr>hasViolation = False, violationType = None, correction = None, shouldAbort = None\<rparr>"

definition report :: "string \<Rightarrow> ViolationResult" where
  "report key =
     \<lparr>hasViolation = True, violationType = Some key,
      correction = Some (CACHED_CORRECTIONS key), shouldAbort = Some True\<rparr>"

definition checkModeViolations :: "FastMonitor \<Rightarrow> js_string \<Rightarrow> ViolationResult \<times> FastMonitor" where
  "checkModeViolations m text =
     (if (fm_workflowStep m = Some ''planning'' \<or> fm_mode m = ''planning'') \<and>
         js_includes text (lit ''<dyad-write'') \<and>
         ''planning_file_creation'' \<notin> detectedViolations m
      then (report ''planning_file_creation'',
            m\<lparr>detectedViolations := insert ''planning_file_creation'' (detectedViolations m)\<rparr>)
      else if (fm_workflowStep m = Some ''docs'' \<or> fm_mode m = ''docs'') \<and>
         (js_includes text (lit ''<dyad-write'') \<and> \<not> re_test mdPathRegex text) \<and>
         ''docs_non_markdown'' \<notin> detectedViolations m
      then (report ''docs_non_markdown'',
            m\<lparr>detectedViolations := insert ''docs_non_markdown'' (detectedViolations m)\<rparr>)
      else if fm_mode m = ''agent'' \<and>
         (js_includes text (lit ''<dyad-write'') \<or> js_includes text (lit ''<dyad-delete'') \<or>
          js_includes text (lit ''<dyad-rename'')) \<and>
         ''agent_dyad_tags'' \<notin> detectedViolations m
      then (report ''agent_dyad_tags'',
            m\<lparr>detectedViolations := insert ''agent_dyad_tags'' (detectedViolations m)\<rparr>)
      else (no_violation, m))"

definition checkChunk :: "FastMonitor \<Rightarrow> js_string \<Rightarrow> ViolationResult \<times> FastMonitor" where
  "checkChunk m chunk =
     (if detectMarkdownCodeBlock chunk \<and> ''markdown_code_block'' \<notin> detectedViolations m
      then (report ''markdown_code_block'',
            m\<lparr>detectedViolations := insert ''markdown_code_block'' (detectedViolations m)\<rparr>)
      else if detectCodexCliTool chunk \<and> ''codex_cli_tool'' \<notin> detectedViolations m
      then (report ''codex_cli_tool'',
            m\<lparr>detectedViolations := insert ''codex_cli_tool'' (detectedViolations m)\<rparr>)
      else checkModeViolations m chunk)"


text \<open>One monitor called on one text after the other: the results in order, and the
  monitor after the last call.\<close>

fun checkChunks :: "FastMonitor \<Rightarrow> js_string list \<Rightarrow> ViolationResult list \<times> FastMonitor" where
  "checkChunks m [] = ([], m)"
| "checkChunks m (t # ts) =
     (case checkChunk m t of (r, m') \<Rightarrow>
        (case checkChunks m' ts of (rs, m'') \<Rightarrow> (r # rs, m'')))"


definition fm_detects :: "FastMonitor \<Rightarrow> string \<Rightarrow> js_string \<Rightarrow> bool" where
  "fm_detects m kind text =
     (if kind = ''markdown_code_block'' then detectMarkdownCodeBlock text
      else if kind = ''codex_cli_tool'' then detectCodexCliTool text
      else if kind = ''planning_file_creation'' then
        (fm_workflowStep m = Some ''planning'' \<or> fm_mode m = ''planning'') \<and>
        js_includes text (lit ''<dyad-write'')
      else if kind = ''docs_non_markdown'' then
        (fm_workflowStep m = Some ''docs'' \<or> fm_mode m = ''docs'') \<and>
        js_includes text (lit ''<dyad-write'') \<and> \<not> re_test mdPathRegex text
      else if kind = ''agent_dyad_tags'' then
        fm_mode m = ''agent'' \<and>
        (js_includes text (lit ''<dyad-write'') \<or> js_includes text (lit ''<dyad-delete'') \<or>
         js_includes text (lit ''<dyad-rename''))
      else False)"

section \<open>Streaming monitor\<close>
















section \<open>Helpers of the stream handler\<close>

text \<open>\<^verbatim>\<open>hasUnclosedDyadWrite\<close>: the loop keeps the index of the last match of
  \<^verbatim>\<open>/<dyad-write[^>]*>/g\<close>; the closing tag is then looked for in
  \<^verbatim>\<open>text.substring(lastOpenIndex)\<close>.\<close>

definition hasUnclosedDyadWrite :: "js_string \<Rightarrow> bool" where
  "hasUnclosedDyadWrite text =
     (case re_match_all writeOpenRegex text of
        [] \<Rightarrow> False
      | m # ms \<Rightarrow>
          (let lastOpenIndex = index (last (m # ms));
               textAfterLastOpen = drop lastOpenIndex text;
               hasClosingTag = re_test writeCloseRegex textAfterLastOpen
           in \<not> hasClosingTag))"






text \<open>U+FF1C, the fullwidth less-than sign of the two replacement texts.\<close>

definition FULLWIDTH_LT :: nat where
  "FULLWIDTH_LT = 65308"



text \<open>
  What the claim says of the result, character by character: the less-than sign at
  the start of every \<^verbatim>\<open><dyad\<close> and every \<^verbatim>\<open></dyad\<close> of the text becomes the fullwidth
  sign, and every other character stays.
\<close>

fun spec_escape :: "js_string \<Rightarrow> js_string" where
  "spec_escape [] = []"
| "spec_escape (c # cs) =
     (if prefix (lit ''<dyad'') (c # cs) \<or> prefix (lit ''</dyad'') (c # cs)
      then FULLWIDTH_LT else c) # spec_escape cs"


section \<open>Corrective agent\<close>

text \<open>
  \<^verbatim>\<open>attemptCorrection\<close> of \<^verbatim>\<open>corrective_agent.ts\<close>. Everything up to the end of the
  loop over \<^verbatim>\<open>stream.textStream\<close> stands inside the \<^verbatim>\<open>try\<close> block; its outcome is
  the argument: \<open>Inl\<close> the message of the error thrown there (by the prompt building,
  \<^verbatim>\<open>getModelClient\<close> or the router call), \<open>Inr\<close> the reply collected from the router.
  \<^verbatim>\<open>/<corrective-instruction>([\s\S]*?)<\/corrective-instruction>/\<close>
\<close>

record CorrectionResult =
  shouldRetry :: bool
  prompt :: "js_string option"
  reason :: "js_string option"

definition correctiveRegex :: matcher where
  "correctiveRegex =
     m_seq (m_lit ''<corrective-instruction>'')
       (m_seq (m_group (m_star_lazy any_char)) (m_lit ''</corrective-instruction>''))"

definition no_tags_found :: CorrectionResult where
  "no_tags_found =
     \<lparr>shouldRetry = False, prompt = None,
      reason = Some (lit ''Could not generate corrective instruction (no tags found)'')\<rparr>"

definition attemptCorrection :: "js_string + js_string \<Rightarrow> CorrectionResult" where
  "attemptCorrection router_outcome =
     (case router_outcome of
        Inl error_message \<Rightarrow>
          \<lparr>shouldRetry = False, prompt = None,
           reason = Some (lit ''Correction failed: '' @ error_message)\<rparr>
      | Inr correctiveInstruction \<Rightarrow>
          (case re_match_first correctiveRegex correctiveInstruction of
             None \<Rightarrow> no_tags_found
           | Some match \<Rightarrow>
               if hd (groups match) \<noteq> []
               then \<lparr>shouldRetry = True, prompt = Some (trim (hd (groups match))), reason = None\<rparr>
               else no_tags_found))"

section \<open>The stop-correct-resume loop\<close>

text \<open>
  The abort controller with the two fields the handler attaches to it. A message of
  the model context is a role and a content.
\<close>

record AbortController =
  aborted :: bool
  correctionNeeded :: "js_string option"
  ac_violationType :: "string option"

definition new_AbortController :: AbortController where
  "new_AbortController = \<lparr>aborted = False, correctionNeeded = None, ac_violationType = None\<rparr>"

type_synonym chat_message = "string \<times> js_string"

text \<open>\<^verbatim>\<open>settings.maxCorrectionAttempts || 2\<close>: a missing setting and the setting 0 both
  give 2. The setting is declared outside the sources at hand; it is a count.\<close>

definition MAX_CORRECTION_ATTEMPTS :: "nat option \<Rightarrow> nat" where
  "MAX_CORRECTION_ATTEMPTS maxCorrectionAttempts =
     (case maxCorrectionAttempts of None \<Rightarrow> 2 | Some n \<Rightarrow> if n = 0 then 2 else n)"

text \<open>
  The state of the loop \<^verbatim>\<open>while (true)\<close> of the handler. The two collaborators are
  parameters: \<open>simpleStreamText\<close> starts a stream of the primary model for a context,
  and \<open>process\<close> stands for building the monitor and running \<^verbatim>\<open>processStreamChunks\<close>
  on the stream, from the response so far and the abort controller to the response
  and the controller afterwards.
\<close>

record 'stream loop_state =
  correctionAttempts :: nat
  chatMessages :: "chat_message list"
  fullResponse :: js_string
  abortController :: AbortController
  fullStream :: 'stream

definition correction_pending :: "AbortController \<Rightarrow> bool" where
  "correction_pending ac \<longleftrightarrow>
     aborted ac \<and> (case correctionNeeded ac of None \<Rightarrow> False | Some c \<Rightarrow> c \<noteq> [])"

text \<open>One pass through \<open>2. Update chat messages\<close>, \<open>3. Reset for resume\<close> and
  \<open>4. Restart stream\<close>.\<close>

definition resume_with_correction ::
  "(chat_message list \<Rightarrow> 'stream) \<Rightarrow> js_string \<Rightarrow> AbortController \<Rightarrow>
   'stream loop_state \<Rightarrow> 'stream loop_state" where
  "resume_with_correction simpleStreamText response ac st =
     (let correctionMessage = the (correctionNeeded ac);
          msgs = chatMessages st @ [(''assistant'', response), (''system'', correctionMessage)]
      in \<lparr>correctionAttempts = correctionAttempts st + 1,
          chatMessages = msgs,
          fullResponse = response,
          abortController = new_AbortController,
          fullStream = simpleStreamText msgs\<rparr>)"

function correction_loop ::
  "nat \<Rightarrow> (chat_message list \<Rightarrow> 'stream) \<Rightarrow>
   ('stream \<Rightarrow> js_string \<Rightarrow> AbortController \<Rightarrow> js_string \<times> AbortController) \<Rightarrow>
   'stream loop_state \<Rightarrow> 'stream loop_state" where
  "correction_loop maxAttempts simpleStreamText process st =
     (case process (fullStream st) (fullResponse st) (abortController st) of
        (response, ac) \<Rightarrow>
          if correction_pending ac
          then (if correctionAttempts st \<ge> maxAttempts
                then st\<lparr>fullResponse := response, abortController := ac\<rparr>
                else correction_loop maxAttempts simpleStreamText process
                       (resume_with_correction simpleStreamText response ac st))
          else st\<lparr>fullResponse := response, abortController := ac\<rparr>)"
  by pat_completeness auto
termination
  by (relation "measure (\<lambda>(maxAttempts, simpleStreamText, process, st).
        maxAttempts - correctionAttempts st)")
     (auto simp: resume_with_correction_def Let_def)

text \<open>
  \<^verbatim>\<open>handleTextDelta\<close> and \<^verbatim>\<open>processStreamChunks\<close> on a stream of text deltas, with a
  fast monitor and \<^verbatim>\<open>enableFastCorrection\<close> set. \<^verbatim>\<open>cleanFullResponse\<close> lies outside
  the sources at hand and is the parameter \<open>clean\<close>; the chunk update stores the
  response and returns it.
\<close>

definition handleTextDelta ::
  "js_string \<Rightarrow> FastMonitor \<Rightarrow> js_string \<Rightarrow> AbortController \<Rightarrow> js_string \<times> FastMonitor \<times> AbortController" where
  "handleTextDelta part_text monitor response ac =
     (case checkChunk monitor (response @ part_text) of
        (result, monitor') \<Rightarrow>
          if hasViolation result \<and> (case correction result of None \<Rightarrow> False | Some c \<Rightarrow> c \<noteq> [])
          then (part_text, monitor',
                \<lparr>aborted = True, correctionNeeded = correction result,
                 ac_violationType = violationType result\<rparr>)
          else (part_text, monitor', ac))"

fun processTextDeltas ::
  "(js_string \<Rightarrow> js_string) \<Rightarrow> FastMonitor \<Rightarrow> js_string list \<Rightarrow> js_string \<Rightarrow> AbortController \<Rightarrow>
   js_string \<times> AbortController" where
  "processTextDeltas clean monitor [] response ac = (response, ac)"
| "processTextDeltas clean monitor (part_text # parts) response ac =
     (case handleTextDelta part_text monitor response ac of
        (chunk, monitor', ac') \<Rightarrow>
          if chunk = [] then processTextDeltas clean monitor' parts response ac'
          else (let response' = clean (response @ chunk)
                in if aborted ac' then (response', ac')
                   else processTextDeltas clean monitor' parts response' ac'))"

text \<open>Two steps of the loop by themselves, to state what the loop computes: a pass that
  ends with a restart, and the last pass, which keeps the response and leaves.\<close>

definition retry_once ::
  "(chat_message list \<Rightarrow> 'stream) \<Rightarrow>
   ('stream \<Rightarrow> js_string \<Rightarrow> AbortController \<Rightarrow> js_string \<times> AbortController) \<Rightarrow>
   'stream loop_state \<Rightarrow> 'stream loop_state" where
  "retry_once simpleStreamText process st =
     (case process (fullStream st) (fullResponse st) (abortController st) of
        (response, ac) \<Rightarrow> resume_with_correction simpleStreamText response ac st)"

definition last_pass ::
  "('stream \<Rightarrow> js_string \<Rightarrow> AbortController \<Rightarrow> js_string \<times> AbortController) \<Rightarrow>
   'stream loop_state \<Rightarrow> 'stream loop_state" where
  "last_pass process st =
     (case process (fullStream st) (fullResponse st) (abortController st) of
        (response, ac) \<Rightarrow> st\<lparr>fullResponse := response, abortController := ac\<rparr>)"

text \<open>
  Written from the claim about \<^verbatim>\<open>attemptCorrection\<close>, with plain list functions:
  \<open>split_first pat s\<close> is the text before and the text after the first occurrence of
  \<open>pat\<close> in \<open>s\<close>; \<open>first_delimited reply\<close> is the text between the first opening
  delimiter and the first closing delimiter after it; \<open>correction_by_delimiters\<close> is
  the result the claim describes, with a retry for a non-empty text between the
  delimiters only.
\<close>

fun split_first :: "js_string \<Rightarrow> js_string \<Rightarrow> (js_string \<times> js_string) option" where
  "split_first pat [] = (if pat = [] then Some ([], []) else None)"
| "split_first pat (c # cs) =
     (if prefix pat (c # cs) then Some ([], drop (length pat) (c # cs))
      else (case split_first pat cs of
              None \<Rightarrow> None
            | Some (before, after) \<Rightarrow> Some (c # before, after)))"

definition first_delimited :: "js_string \<Rightarrow> js_string option" where
  "first_delimited reply =
     (case split_first (lit ''<corrective-instruction>'') reply of
        None \<Rightarrow> None
      | Some (before, rest) \<Rightarrow>
          (case split_first (lit ''</corrective-instruction>'') rest of
             None \<Rightarrow> None
           | Some (body, after) \<Rightarrow> Some body))"

definition correction_by_delimiters :: "js_string + js_string \<Rightarrow> CorrectionResult" where
  "correction_by_delimiters router_outcome =
     (case router_outcome of
        Inl error_message \<Rightarrow>
          \<lparr>shouldRetry = False, prompt = None,
           reason = Some (lit ''Correction failed: '' @ error_message)\<rparr>
      | Inr reply \<Rightarrow>
          (case first_delimited reply of
             None \<Rightarrow> no_tags_found
           | Some body \<Rightarrow>
               if body = [] then no_tags_found
               else \<lparr>shouldRetry = True, prompt = Some (trim body), reason = None\<rparr>))"

text \<open>Written from the claim about \<^verbatim>\<open>hasUnclosedDyadWrite\<close>: a text that starts with
  an opening dyad-write tag, that is with \<^verbatim>\<open><dyad-write\<close> and a \<^verbatim>\<open>>\<close> somewhere
  behind it.\<close>

definition starts_with_open_tag :: "js_string \<Rightarrow> bool" where
  "starts_with_open_tag s \<longleftrightarrow> prefix (lit ''<dyad-write'') s \<and> 62 \<in> set (drop 11 s)"

section \<open>Workflow manager\<close>

text \<open>
  The workflow manager of \<^verbatim>\<open>workflow_manager.ts\<close> keeps, for every chat, a
  status and a step in the \<^verbatim>\<open>chats\<close> table. The TypeScript type
  \<^verbatim>\<open>WorkflowStep\<close> is a union of five string literals; the two columns are
  text columns, the step column nullable, so a row may hold a value outside the
  union (the code has a branch for it).
\<close>

datatype WorkflowStep = Planning | Docs | Frontend | Backend | Testing

fun step_name :: "WorkflowStep \<Rightarrow> string" where
  "step_name Planning = ''planning''"
| "step_name Docs = ''docs''"
| "step_name Frontend = ''frontend''"
| "step_name Backend = ''backend''"
| "step_name Testing = ''testing''"

definition WORKFLOW_STEPS :: "WorkflowStep list" where
  "WORKFLOW_STEPS = [Planning, Docs, Frontend, Backend, Testing]"

record chat_row =
  workflowStatus :: string
  workflowStep :: "string option"

type_synonym chats_table = "int \<Rightarrow> chat_row option"

text \<open>\<^verbatim>\<open>db.update(chats).set(...).where(eq(chats.id, chatId))\<close>: the row with this
  id is rewritten; when there is none, nothing happens.\<close>

definition db_update :: "chats_table \<Rightarrow> int \<Rightarrow> (chat_row \<Rightarrow> chat_row) \<Rightarrow> chats_table" where
  "db_update d chatId f = (case d chatId of None \<Rightarrow> d | Some r \<Rightarrow> d(chatId \<mapsto> f r))"

definition getChatState :: "chats_table \<Rightarrow> int \<Rightarrow> chat_row option" where
  "getChatState d chatId = d chatId"

definition startWorkflow :: "chats_table \<Rightarrow> int \<Rightarrow> WorkflowStep \<times> chats_table" where
  "startWorkflow d chatId =
     (Planning,
      db_update d chatId (\<lambda>r. r\<lparr>workflowStatus := ''active'', workflowStep := Some ''planning''\<rparr>))"

definition stopWorkflow :: "chats_table \<Rightarrow> int \<Rightarrow> chats_table" where
  "stopWorkflow d chatId =
     db_update d chatId (\<lambda>r. r\<lparr>workflowStatus := ''idle'', workflowStep := None\<rparr>)"

definition forceStep :: "chats_table \<Rightarrow> int \<Rightarrow> WorkflowStep \<Rightarrow> WorkflowStep \<times> chats_table" where
  "forceStep d chatId step =
     (step,
      db_update d chatId (\<lambda>r. r\<lparr>workflowStatus := ''active'', workflowStep := Some (step_name step)\<rparr>))"

text \<open>\<^verbatim>\<open>WORKFLOW_STEPS.indexOf(chat.workflowStep)\<close>: the position of the stored
  value in the step list, \<open>None\<close> for JavaScript's \<open>-1\<close> (a null step or an unknown
  string).\<close>

fun indexOf_from :: "WorkflowStep list \<Rightarrow> string \<Rightarrow> nat \<Rightarrow> nat option" where
  "indexOf_from [] v i = None"
| "indexOf_from (s # ss) v i = (if step_name s = v then Some i else indexOf_from ss v (Suc i))"

definition indexOf_step :: "string option \<Rightarrow> nat option" where
  "indexOf_step v = (case v of None \<Rightarrow> None | Some s \<Rightarrow> indexOf_from WORKFLOW_STEPS s 0)"

definition advanceStep :: "chats_table \<Rightarrow> int \<Rightarrow> WorkflowStep option \<times> chats_table" where
  "advanceStep d chatId =
     (case getChatState d chatId of
        None \<Rightarrow> (None, d)
      | Some chat \<Rightarrow>
          if workflowStatus chat \<noteq> ''active'' then (None, d)
          else (case indexOf_step (workflowStep chat) of
                  None \<Rightarrow> (Some Planning, snd (forceStep d chatId Planning))
                | Some currentStepIndex \<Rightarrow>
                    if currentStepIndex = length WORKFLOW_STEPS - 1
                    then (None,
                          db_update d chatId
                            (\<lambda>r. r\<lparr>workflowStatus := ''idle'', workflowStep := None\<rparr>))
                    else (let nextStep = WORKFLOW_STEPS ! (currentStepIndex + 1)
                          in (Some nextStep,
                              db_update d chatId
                                (\<lambda>r. r\<lparr>workflowStep := Some (step_name nextStep)\<rparr>)))))"

text \<open>The invariant of a persisted workflow state: the step is set exactly when the
  status is active, and a set step is one of the five step names.\<close>

definition workflow_inv :: "chat_row \<Rightarrow> bool" where
  "workflow_inv r \<longleftrightarrow>
     ((workflowStep r \<noteq> None) = (workflowStatus r = ''active'')) \<and>
     (case workflowStep r of None \<Rightarrow> True | Some s \<Rightarrow> s \<in> set (map step_name WORKFLOW_STEPS))"

definition idle_row :: chat_row where
  "idle_row = \<lparr>workflowStatus = ''idle'', workflowStep = None\<rparr>"

section \<open>Inputs of the scenarios\<close>

text \<open>The response of the end-to-end scenario: a sentence followed by a fenced block.\<close>

definition fix_text :: js_string where
  "fix_text = lit ''Here is the fix:\<newline>```ts\<newline>const x = 1;\<newline>```''"

text \<open>A primary model that answers every context with the fenced text, in fast
  correction with a new monitor for every stream, and the state in which the loop
  starts for it.\<close>

definition fence_model :: "chat_message list \<Rightarrow> js_string list" where
  "fence_model msgs = [fix_text]"

definition fast_process :: "js_string list \<Rightarrow> js_string \<Rightarrow> AbortController \<Rightarrow> js_string \<times> AbortController" where
  "fast_process stream response ac =
     processTextDeltas (\<lambda>s. s) (new_FastMonitor ''build'' None) stream response ac"

definition fence_start :: "js_string list loop_state" where
  "fence_start =
     \<lparr>correctionAttempts = 0,
      chatMessages = [(''user'', lit ''fix it'')],
      fullResponse = [],
      abortController = new_AbortController,
      fullStream = fence_model [(''user'', lit ''fix it'')]\<rparr>"

text \<open>A reply of the router with the two delimiters and nothing between them, and one
  with an instruction between them.\<close>

definition empty_instruction_reply :: js_string where
  "empty_instruction_reply = lit ''<corrective-instruction></corrective-instruction>''"

definition plain_instruction_reply :: js_string where
  "plain_instruction_reply =
     lit ''Sure.<corrective-instruction>\<newline>Use dyad-write tags.\<newline></corrective-instruction>''"

text \<open>A response whose first write tag is never closed and whose second one is.\<close>

definition first_unclosed_text :: js_string where
  "first_unclosed_text =
     lit ''<dyad-write path=\"a.ts\">const a<dyad-write path=\"b.ts\">const b</dyad-write>''"
















section \<open>Properties of the workflow manager\<close>

lemma db_update_same: "db_update d c f c = map_option f (d c)"
  by (simp add: db_update_def split: option.splits)

lemma db_update_other: "c' \<noteq> c \<Longrightarrow> db_update d c f c' = d c'"
  by (simp add: db_update_def split: option.splits)

text \<open>
  C3. When the chat has a row, \<^verbatim>\<open>startWorkflow\<close> returns and stores step planning
  with status active, and five calls of \<^verbatim>\<open>advanceStep\<close> after it return docs,
  frontend, backend, testing and null in this order; after the fifth call the row
  has status idle and no step. This holds from every stored state of the row, the
  idle one included.
\<close>

theorem workflow_scenario:
  assumes "d chatId = Some r"
  shows "case startWorkflow d chatId of (s0, d0) \<Rightarrow>
         case advanceStep d0 chatId of (s1, d1) \<Rightarrow>
         case advanceStep d1 chatId of (s2, d2) \<Rightarrow>
         case advanceStep d2 chatId of (s3, d3) \<Rightarrow>
         case advanceStep d3 chatId of (s4, d4) \<Rightarrow>
         case advanceStep d4 chatId of (s5, d5) \<Rightarrow>
           s0 = Planning \<and>
           d0 chatId = Some (r\<lparr>workflowStatus := ''active'', workflowStep := Some ''planning''\<rparr>) \<and>
           [s1, s2, s3, s4, s5] = [Some Docs, Some Frontend, Some Backend, Some Testing, None] \<and>
           d5 chatId = Some (r\<lparr>workflowStatus := ''idle'', workflowStep := None\<rparr>)"
  using assms
  by (simp add: startWorkflow_def advanceStep_def getChatState_def db_update_same
      indexOf_step_def WORKFLOW_STEPS_def forceStep_def)

theorem workflow_scenario_witness:
  "case startWorkflow ((\<lambda>_. None)(7 \<mapsto> idle_row)) 7 of (s0, d0) \<Rightarrow>
         case advanceStep d0 7 of (s1, d1) \<Rightarrow>
         case advanceStep d1 7 of (s2, d2) \<Rightarrow>
         case advanceStep d2 7 of (s3, d3) \<Rightarrow>
         case advanceStep d3 7 of (s4, d4) \<Rightarrow>
         case advanceStep d4 7 of (s5, d5) \<Rightarrow>
           s0 = Planning \<and>
           d0 7 = Some \<lparr>workflowStatus = ''active'', workflowStep = Some ''planning''\<rparr> \<and>
           [s1, s2, s3, s4, s5] = [Some Docs, Some Frontend, Some Backend, Some Testing, None] \<and>
           d5 7 = Some idle_row"
  using workflow_scenario [of "(\<lambda>_. None)(7 \<mapsto> idle_row)" 7 idle_row]
  by (simp add: idle_row_def)

text \<open>Each stored state written by an operation satisfies the invariant.\<close>

lemma indexOf_from_bounds: "indexOf_from ss v i = Some k \<Longrightarrow> i \<le> k \<and> k < i + length ss"
  by (induction ss v i rule: indexOf_from.induct) (auto split: if_splits)

lemma workflow_inv_start: "workflow_inv (r\<lparr>workflowStatus := ''active'', workflowStep := Some (step_name s)\<rparr>)"
  by (cases s) (simp_all add: workflow_inv_def WORKFLOW_STEPS_def)

lemma workflow_inv_idle: "workflow_inv (r\<lparr>workflowStatus := ''idle'', workflowStep := None\<rparr>)"
  by (simp add: workflow_inv_def)

lemma workflow_inv_next:
  "workflowStatus r = ''active'' \<Longrightarrow> workflow_inv (r\<lparr>workflowStep := Some (step_name s)\<rparr>)"
  by (cases s) (simp_all add: workflow_inv_def WORKFLOW_STEPS_def)

lemma db_update_inv:
  assumes "\<forall>c r. d c = Some r \<longrightarrow> workflow_inv r"
    and "\<And>r. d chatId = Some r \<Longrightarrow> workflow_inv (f r)"
  shows "\<forall>c r. db_update d chatId f c = Some r \<longrightarrow> workflow_inv r"
  using assms by (auto simp: db_update_def split: option.splits if_splits)

text \<open>
  C4. If every row of the table satisfies the invariant (the step is set exactly when
  the status is active, and a set step is one of planning, docs, frontend, backend,
  testing), then so does every row after \<^verbatim>\<open>startWorkflow\<close>, after
  \<^verbatim>\<open>advanceStep\<close>, after \<^verbatim>\<open>forceStep\<close> and after \<^verbatim>\<open>stopWorkflow\<close>.
\<close>

theorem workflow_ops_preserve_inv:
  assumes "\<forall>c r. d c = Some r \<longrightarrow> workflow_inv r"
  shows "(\<forall>c r. snd (startWorkflow d chatId) c = Some r \<longrightarrow> workflow_inv r) \<and>
         (\<forall>c r. snd (advanceStep d chatId) c = Some r \<longrightarrow> workflow_inv r) \<and>
         (\<forall>c r. snd (forceStep d chatId step) c = Some r \<longrightarrow> workflow_inv r) \<and>
         (\<forall>c r. stopWorkflow d chatId c = Some r \<longrightarrow> workflow_inv r)"
proof (intro conjI)
  show "\<forall>c r. snd (startWorkflow d chatId) c = Some r \<longrightarrow> workflow_inv r"
    unfolding startWorkflow_def snd_conv
    using workflow_inv_start [where s = Planning] by (intro db_update_inv [OF assms]) simp
  show "\<forall>c r. snd (forceStep d chatId step) c = Some r \<longrightarrow> workflow_inv r"
    unfolding forceStep_def snd_conv
    by (intro db_update_inv [OF assms]) (rule workflow_inv_start)
  show "\<forall>c r. stopWorkflow d chatId c = Some r \<longrightarrow> workflow_inv r"
    unfolding stopWorkflow_def
    by (intro db_update_inv [OF assms]) (rule workflow_inv_idle)
  show "\<forall>c r. snd (advanceStep d chatId) c = Some r \<longrightarrow> workflow_inv r"
  proof (cases "d chatId")
    case None
    then show ?thesis using assms by (simp add: advanceStep_def getChatState_def)
  next
    case (Some chat)
    show ?thesis
    proof (cases "workflowStatus chat = ''active''")
      case False
      then show ?thesis using assms Some by (simp add: advanceStep_def getChatState_def)
    next
      case True
      show ?thesis
      proof (cases "indexOf_step (workflowStep chat)")
        case None
        then show ?thesis
          using Some True
          unfolding advanceStep_def getChatState_def forceStep_def
          by (simp del: fun_upd_apply) (intro db_update_inv [OF assms], use workflow_inv_start [where s = Planning] in simp)
      next
        case (Some i)
        show ?thesis
        proof (cases "i = length WORKFLOW_STEPS - 1")
          case True
          then show ?thesis
            using \<open>d chatId = Some chat\<close> \<open>workflowStatus chat = ''active''\<close> Some
            unfolding advanceStep_def getChatState_def
            by (simp del: fun_upd_apply) (intro db_update_inv [OF assms], rule workflow_inv_idle)
        next
          case False
          then show ?thesis
            using \<open>d chatId = Some chat\<close> \<open>workflowStatus chat = ''active''\<close> Some
            unfolding advanceStep_def getChatState_def Let_def
            by (simp del: fun_upd_apply) (intro db_update_inv [OF assms], simp add: workflow_inv_next)
        qed
      qed
    qed
  qed
qed

theorem workflow_ops_preserve_inv_witness:
  "workflow_inv (the (snd (startWorkflow ((\<lambda>_. None)(7 \<mapsto> idle_row)) 7) 7)) \<and>
   workflow_inv (the (snd (advanceStep ((\<lambda>_. None)(7 \<mapsto> idle_row)) 7) 7)) \<and>
   workflow_inv (the (snd (forceStep ((\<lambda>_. None)(7 \<mapsto> idle_row)) 7 Backend) 7)) \<and>
   workflow_inv (the (stopWorkflow ((\<lambda>_. None)(7 \<mapsto> idle_row)) 7 7))"
proof -
  define d :: chats_table where "d = (\<lambda>_. None)(7 \<mapsto> idle_row)"
  have h: "\<forall>c r. d c = Some r \<longrightarrow> workflow_inv r"
    by (simp add: d_def idle_row_def workflow_inv_def)
  have d7: "d 7 = Some idle_row"
    by (simp add: d_def)
  have e1: "snd (startWorkflow d 7) 7 = Some (the (snd (startWorkflow d 7) 7))"
    by (simp add: startWorkflow_def db_update_same d7)
  have e2: "snd (advanceStep d 7) 7 = Some (the (snd (advanceStep d 7) 7))"
    by (simp add: advanceStep_def getChatState_def d7 idle_row_def)
  have e3: "snd (forceStep d 7 Backend) 7 = Some (the (snd (forceStep d 7 Backend) 7))"
    by (simp add: forceStep_def db_update_same d7)
  have e4: "stopWorkflow d 7 7 = Some (the (stopWorkflow d 7 7))"
    by (simp add: stopWorkflow_def db_update_same d7)
  note t = workflow_ops_preserve_inv [OF h, of 7 Backend]
  from t have t1: "\<forall>c r. snd (startWorkflow d 7) c = Some r \<longrightarrow> workflow_inv r" by (rule conjunct1)
  from t have t2: "\<forall>c r. snd (advanceStep d 7) c = Some r \<longrightarrow> workflow_inv r" by simp
  from t have t3: "\<forall>c r. snd (forceStep d 7 Backend) c = Some r \<longrightarrow> workflow_inv r" by simp
  from t have t4: "\<forall>c r. stopWorkflow d 7 c = Some r \<longrightarrow> workflow_inv r" by simp
  from t1 [rule_format, OF e1] t2 [rule_format, OF e2] t3 [rule_format, OF e3] t4 [rule_format, OF e4]
  show ?thesis
    unfolding d_def by (intro conjI)
qed

section \<open>Facts about the matcher\<close>

text \<open>The definitions a concrete match unfolds to.\<close>

lemmas re_eval =
  re_test_def m_seq_def m_lit_def m_lit_ci_def m_cls_def m_star_def m_star_lazy_def m_plus_def
  m_group_def m_word_boundary_def m_line_start_def match_here_def re_match_first_def
  re_match_all_def lit_def is_word_def is_space_def is_line_terminator_def any_char_def
  not_char_def canonicalize_def snippet100_def

lemma lit_gt: "lit ''>'' = [62]"
  by (simp add: lit_def)

lemma length_lit: "length (lit s) = length s"
  by (simp add: lit_def)

lemma m_seq_Nil_iff: "m_seq a b st = [] \<longleftrightarrow> (\<forall>st' \<in> set (a st). b st' = [])"
  by (simp add: m_seq_def)

lemma m_lit_Nil_iff: "m_lit p (caps, prev, s) = [] \<longleftrightarrow> \<not> prefix (lit p) s"
  by (simp add: m_lit_def)

lemma m_seq_lit:
  "m_seq (m_lit p) b (caps, prev, s) =
     (if prefix (lit p) s
      then b (caps, (if p = [] then prev else Some (last (lit p))), drop (length p) s) else [])"
  by (simp add: m_seq_def m_lit_def)

lemma m_lit_nonempty [simp]: "m_lit p (caps, prev, s) \<noteq> [] \<longleftrightarrow> prefix (lit p) s"
  by (simp add: m_lit_def)

lemma m_seq_lit_n:
  "length p = n \<Longrightarrow>
   m_seq (m_lit p) b (caps, prev, s) =
     (if prefix (lit p) s
      then b (caps, (if p = [] then prev else Some (last (lit p))), drop n s) else [])"
  by (auto simp: m_seq_lit)

lemma m_lit_nonempty_pair: "m_lit p (caps, x) \<noteq> [] \<longleftrightarrow> prefix (lit p) (snd x)"
  by (cases x) simp

lemma star_greedy_snd:
  "snd ` set (star_greedy P prev s) = {drop k s | k. k \<le> length (takeWhile P s)}"
proof (induction s arbitrary: prev)
  case Nil
  then show ?case by simp
next
  case (Cons c cs)
  show ?case
  proof (cases "P c")
    case False
    then show ?thesis by simp
  next
    case True
    have "{drop k (c # cs) | k. k \<le> Suc (length (takeWhile P cs))} =
          insert (c # cs) {drop k cs | k. k \<le> length (takeWhile P cs)}"
    proof (intro set_eqI iffI)
      fix x assume "x \<in> {drop k (c # cs) | k. k \<le> Suc (length (takeWhile P cs))}"
      then obtain k where k: "x = drop k (c # cs)" "k \<le> Suc (length (takeWhile P cs))" by blast
      then show "x \<in> insert (c # cs) {drop k cs | k. k \<le> length (takeWhile P cs)}"
        by (cases k) auto
    next
      fix x assume "x \<in> insert (c # cs) {drop k cs | k. k \<le> length (takeWhile P cs)}"
      then consider "x = c # cs" | k where "x = drop k cs" "k \<le> length (takeWhile P cs)" by blast
      then show "x \<in> {drop k (c # cs) | k. k \<le> Suc (length (takeWhile P cs))}"
      proof cases
        case 1
        then show ?thesis by (intro CollectI exI [of _ 0]) simp
      next
        case 2
        then show ?thesis by (intro CollectI exI [of _ "Suc k"]) simp
      qed
    qed
    with True Cons.IH [of "Some c"] show ?thesis
      by (simp add: image_Un Un_commute)
  qed
qed

lemma m_seq_star_lit_nonempty:
  "m_seq (m_star P) (m_lit p) (caps, prev, s) \<noteq> [] \<longleftrightarrow>
     (\<exists>k \<le> length (takeWhile P s). prefix (lit p) (drop k s))"
proof -
  have "m_seq (m_star P) (m_lit p) (caps, prev, s) \<noteq> [] \<longleftrightarrow>
        (\<exists>x \<in> set (star_greedy P prev s). prefix (lit p) (snd x))"
    by (simp add: m_seq_def m_star_def m_lit_nonempty_pair)
  also have "\<dots> \<longleftrightarrow> (\<exists>r \<in> snd ` set (star_greedy P prev s). prefix (lit p) r)"
    by blast
  also have "\<dots> \<longleftrightarrow> (\<exists>k \<le> length (takeWhile P s). prefix (lit p) (drop k s))"
    unfolding star_greedy_snd by blast
  finally show ?thesis .
qed

lemma takeWhile_not_gt: "62 \<in> set s \<longleftrightarrow> length (takeWhile (not_char ''>'') s) < length s"
  by (induction s) (auto simp: not_char_def lit_gt)

lemma open_tail_iff:
  "m_seq (m_star (not_char ''>'')) (m_lit ''>'') (caps, prev, s) \<noteq> [] \<longleftrightarrow> 62 \<in> set s"
proof -
  let ?n = "length (takeWhile (not_char ''>'') s)"
  have "(\<exists>k \<le> ?n. prefix [62] (drop k s)) \<longleftrightarrow> 62 \<in> set s"
  proof
    assume "\<exists>k \<le> ?n. prefix [62] (drop k s)"
    then obtain k zs where "drop k s = 62 # zs" by (auto simp: prefix_def)
    then have "62 \<in> set (drop k s)" by simp
    then show "62 \<in> set s" by (rule in_set_dropD)
  next
    assume "62 \<in> set s"
    then have lt: "?n < length s" by (simp add: takeWhile_not_gt)
    then have "\<not> not_char ''>'' (s ! ?n)"
      using nth_length_takeWhile by blast
    then have "s ! ?n = 62" by (simp add: not_char_def lit_gt)
    with lt have "drop ?n s = 62 # drop (Suc ?n) s"
      by (metis Cons_nth_drop_Suc)
    then show "\<exists>k \<le> ?n. prefix [62] (drop k s)" by (intro exI [of _ ?n]) simp
  qed
  then show ?thesis by (simp add: m_seq_star_lit_nonempty lit_gt)
qed

lemma tagOpen_here:
  "tagOpenRegex name (caps, prev, s) \<noteq> [] \<longleftrightarrow> prefix (lit name) s \<and> 62 \<in> set (drop (length name) s)"
  unfolding tagOpenRegex_def by (simp add: m_seq_lit open_tail_iff)

lemma re_test_from_here: "m ([], prev, s) \<noteq> [] \<Longrightarrow> re_test_from m prev s"
  by (cases s) simp_all

lemma re_test_from_iff:
  "re_test_from m prev s \<longleftrightarrow>
     (\<exists>pre suf. s = pre @ suf \<and> m ([], (if pre = [] then prev else Some (last pre)), suf) \<noteq> [])"
proof (induction s arbitrary: prev)
  case Nil
  then show ?case by simp
next
  case (Cons c cs)
  show ?case
  proof
    assume "re_test_from m prev (c # cs)"
    then consider "m ([], prev, c # cs) \<noteq> []" | "re_test_from m (Some c) cs" by auto
    then show "\<exists>pre suf. c # cs = pre @ suf \<and> m ([], (if pre = [] then prev else Some (last pre)), suf) \<noteq> []"
    proof cases
      case 1
      then show ?thesis by (intro exI [of _ "[]"] exI [of _ "c # cs"]) simp
    next
      case 2
      then obtain pre suf where ps: "cs = pre @ suf"
        "m ([], (if pre = [] then Some c else Some (last pre)), suf) \<noteq> []"
        using Cons.IH by blast
      then show ?thesis by (intro exI [of _ "c # pre"] exI [of _ suf]) auto
    qed
  next
    assume "\<exists>pre suf. c # cs = pre @ suf \<and> m ([], (if pre = [] then prev else Some (last pre)), suf) \<noteq> []"
    then obtain pre suf where ps: "c # cs = pre @ suf"
      "m ([], (if pre = [] then prev else Some (last pre)), suf) \<noteq> []" by blast
    show "re_test_from m prev (c # cs)"
    proof (cases pre)
      case Nil
      with ps show ?thesis by (intro re_test_from_here) simp
    next
      case (Cons a pre')
      with ps have "cs = pre' @ suf" "a = c" by simp_all
      moreover from ps Cons have "m ([], (if pre' = [] then Some c else Some (last pre')), suf) \<noteq> []"
        by (auto split: if_splits)
      ultimately have "re_test_from m (Some c) cs" using Cons.IH by blast
      then show ?thesis by simp
    qed
  qed
qed

lemma tagOpen_test_iff:
  "re_test (tagOpenRegex name) s \<longleftrightarrow>
     (\<exists>pre suf. s = pre @ lit name @ suf \<and> 62 \<in> set suf)"
proof -
  have "re_test (tagOpenRegex name) s \<longleftrightarrow>
     (\<exists>pre suf. s = pre @ suf \<and> prefix (lit name) suf \<and> 62 \<in> set (drop (length name) suf))"
    by (simp add: re_test_def re_test_from_iff tagOpen_here)
  also have "\<dots> \<longleftrightarrow> (\<exists>pre suf. s = pre @ lit name @ suf \<and> 62 \<in> set suf)"
  proof
    assume "\<exists>pre suf. s = pre @ suf \<and> prefix (lit name) suf \<and> 62 \<in> set (drop (length name) suf)"
    then obtain pre suf zs where "s = pre @ suf" "suf = lit name @ zs"
      "62 \<in> set (drop (length name) suf)" by (auto simp: prefix_def)
    then show "\<exists>pre suf. s = pre @ lit name @ suf \<and> 62 \<in> set suf"
      by (intro exI [of _ pre] exI [of _ zs]) (simp add: length_lit)
  next
    assume "\<exists>pre suf. s = pre @ lit name @ suf \<and> 62 \<in> set suf"
    then obtain pre suf where "s = pre @ lit name @ suf" "62 \<in> set suf" by blast
    then show "\<exists>pre suf. s = pre @ suf \<and> prefix (lit name) suf \<and> 62 \<in> set (drop (length name) suf)"
      by (intro exI [of _ pre] exI [of _ "lit name @ suf"]) (simp add: length_lit)
  qed
  finally show ?thesis .
qed

lemma hasDyadWrite_directive:
  "re_test (tagOpenRegex ''<dyad-write'') (pre @ lit ''<dyad-write'' @ attrs @ lit ''>'' @ post)"
  unfolding tagOpen_test_iff by (intro exI [of _ pre] exI [of _ "attrs @ lit ''>'' @ post"]) (simp add: lit_gt)

section \<open>The validator and the fast monitor on the scenario text\<close>

lemma fix_md: "detectMarkdownCodeBlock fix_text"
  by (simp add: detectMarkdownCodeBlock_def fix_text_def re_eval)

lemma fix_blocks: "detectMarkdownCodeBlocks fix_text =
   [\<lparr>vtype = code_block,
     message = lit ''Markdown code blocks are prohibited for file content. Use <dyad-write> tags instead.'',
     vcontext = lit ''```ts\<newline>const x = 1;\<newline>```'',
     severity = critical\<rparr>]"
  by (simp add: detectMarkdownCodeBlocks_def codeBlockRegex_def fix_text_def re_eval)

lemma fix_tools: "detectCodexCliTools fix_text = []"
  by (simp add: detectCodexCliTools_def prohibitedTools_def toolRegex_def fix_text_def re_eval)

lemma fix_struct: "validateDyadTagStructure fix_text = []"
  by (simp add: validateDyadTagStructure_def writeOpenRegex_def writeCloseRegex_def fix_text_def re_eval)

lemma fix_prohibited: "detectProhibitedInstructions fix_text = []"
  by (simp add: detectProhibitedInstructions_def writeTagRegex_def fix_text_def re_eval)

lemma fix_tags:
  "\<not> re_test (tagOpenRegex ''<dyad-write'') fix_text"
  "\<not> re_test (tagOpenRegex ''<dyad-delete'') fix_text"
  "\<not> re_test (tagOpenRegex ''<dyad-rename'') fix_text"
  "\<not> re_test (tagOpenRegex ''<dyad-add-dependency'') fix_text"
  by (simp_all add: tagOpenRegex_def fix_text_def re_eval)

lemma fix_mode: "validateModeCompliance fix_text ctx = []"
  by (simp add: validateModeCompliance_def fix_tags)

text \<open>
  C6. On the text \<^verbatim>\<open>"Here is the fix:\n```ts\nconst x = 1;\n```"\<close> the detector of
  fenced blocks returns one violation, critical and of type \<open>code_block\<close> (the spec's
  prohibited-markup-block); it is the only violation of \<^verbatim>\<open>validateResponse\<close> in any
  mode and step. The first \<^verbatim>\<open>checkChunk\<close> of a new fast monitor, in any mode and step,
  returns hasViolation true, shouldAbort true and the type \<open>markdown_code_block\<close>, the
  fast monitor's name of the same kind.
\<close>

theorem fix_scenario:
  "detectMarkdownCodeBlocks fix_text =
     [\<lparr>vtype = code_block,
       message = lit ''Markdown code blocks are prohibited for file content. Use <dyad-write> tags instead.'',
       vcontext = lit ''```ts\<newline>const x = 1;\<newline>```'',
       severity = critical\<rparr>] \<and>
   violations (validateResponse fix_text ctx) = detectMarkdownCodeBlocks fix_text \<and>
   warnings (validateResponse fix_text ctx) = [] \<and>
   \<not> isValid (validateResponse fix_text ctx) \<and>
   hasViolation (fst (checkChunk (new_FastMonitor mode step) fix_text)) = True \<and>
   violationType (fst (checkChunk (new_FastMonitor mode step) fix_text)) = Some ''markdown_code_block'' \<and>
   shouldAbort (fst (checkChunk (new_FastMonitor mode step) fix_text)) = Some True \<and>
   correction (fst (checkChunk (new_FastMonitor mode step) fix_text)) =
     Some (CACHED_CORRECTIONS ''markdown_code_block'')"
proof -
  have v: "validateResponse fix_text ctx =
      \<lparr>isValid = False, violations = detectMarkdownCodeBlocks fix_text, warnings = []\<rparr>"
    by (simp add: validateResponse_def fix_tools fix_struct fix_prohibited fix_mode)
       (simp add: fix_blocks)
  have c: "fst (checkChunk (new_FastMonitor mode step) fix_text) = report ''markdown_code_block''"
    by (simp add: checkChunk_def new_FastMonitor_def fix_md)
  show ?thesis
    by (simp add: v c report_def) (rule fix_blocks)
qed

text \<open>
  C8. Every response that contains the opening tag of a write directive
  (\<^verbatim>\<open><dyad-write\<close>, its attributes, \<^verbatim>\<open>>\<close>), whatever stands before and after it,
  gets the critical mode violation of ask mode from \<^verbatim>\<open>validateModeCompliance\<close> when
  the mode is ask, at every workflow step; \<^verbatim>\<open>validateResponse\<close> lists it among its
  violations.
\<close>

theorem ask_mode_write_flagged:
  "ask_violation \<in> set (validateModeCompliance
      (pre @ lit ''<dyad-write'' @ attrs @ lit ''>'' @ post)
      \<lparr>vc_mode = ''ask'', vc_workflowStep = step\<rparr>) \<and>
   vtype ask_violation = mode_violation \<and> severity ask_violation = critical \<and>
   ask_violation \<in> set (violations (validateResponse
      (pre @ lit ''<dyad-write'' @ attrs @ lit ''>'' @ post)
      \<lparr>vc_mode = ''ask'', vc_workflowStep = step\<rparr>))"
proof -
  let ?r = "pre @ lit ''<dyad-write'' @ attrs @ lit ''>'' @ post"
  let ?ctx = "\<lparr>vc_mode = ''ask'', vc_workflowStep = step\<rparr>"
  have m: "ask_violation \<in> set (validateModeCompliance ?r ?ctx)"
    by (simp add: validateModeCompliance_def Let_def hasDyadWrite_directive)
  have c: "vtype ask_violation = mode_violation" "severity ask_violation = critical"
    by (simp_all add: ask_violation_def)
  from m c have "ask_violation \<in> set (violations (validateResponse ?r ?ctx))"
    by (simp add: validateResponse_def Let_def)
  with m c show ?thesis by blast
qed

section \<open>Escaping of dyad tags\<close>

declare replaceAll.simps [simp del]

lemma replaceAll_Nil [simp]: "replaceAll pat rep [] = []"
  by (simp add: replaceAll.simps)





lemma sublist_drop: "sublist q (drop n s) \<Longrightarrow> sublist q s"
  by (metis append_take_drop_id sublist_order.order_trans sublist_append_leftI)














lemma length_spec_escape: "length (spec_escape s) = length s"
  by (induction s) simp_all







section \<open>The bound of the stop-correct-resume loop\<close>

declare correction_loop.simps [simp del]

lemma retry_once_attempts:
  "correctionAttempts (retry_once S process st) = Suc (correctionAttempts st)"
  by (simp add: retry_once_def resume_with_correction_def Let_def split: prod.splits)

lemma retry_once_messages:
  "length (chatMessages (retry_once S process st)) = length (chatMessages st) + 2"
  by (simp add: retry_once_def resume_with_correction_def Let_def split: prod.splits)

lemma retry_once_stream:
  "\<exists>msgs. fullStream (retry_once S process st) = S msgs"
  by (auto simp: retry_once_def resume_with_correction_def Let_def split: prod.splits)

lemma retry_pow_attempts:
  "correctionAttempts ((retry_once S process ^^ k) st) = correctionAttempts st + k"
  by (induction k) (simp_all add: retry_once_attempts)

lemma retry_pow_messages:
  "length (chatMessages ((retry_once S process ^^ k) st)) = length (chatMessages st) + 2 * k"
  by (induction k) (simp_all add: retry_once_messages)

lemma correction_loop_unroll:
  assumes restarted: "\<And>msgs resp ac. correction_pending (snd (process (S msgs) resp ac))"
  shows "(\<And>resp ac. correction_pending (snd (process (fullStream st) resp ac))) \<Longrightarrow>
         correctionAttempts st \<le> maxAttempts \<Longrightarrow>
         correction_loop maxAttempts S process st =
           last_pass process ((retry_once S process ^^ (maxAttempts - correctionAttempts st)) st)"
proof (induction "maxAttempts - correctionAttempts st" arbitrary: st)
  case 0
  then have "correctionAttempts st \<ge> maxAttempts" by simp
  moreover have "correction_pending (snd (process (fullStream st) (fullResponse st) (abortController st)))"
    using 0 by blast
  ultimately show ?case
    using 0 by (subst correction_loop.simps) (auto simp: last_pass_def split: prod.splits)
next
  case (Suc n)
  let ?st' = "retry_once S process st"
  have lt: "\<not> correctionAttempts st \<ge> maxAttempts" using Suc by simp
  have p: "correction_pending (snd (process (fullStream st) (fullResponse st) (abortController st)))"
    using Suc by blast
  have step: "correction_loop maxAttempts S process st = correction_loop maxAttempts S process ?st'"
    using lt p by (subst correction_loop.simps) (auto simp: retry_once_def split: prod.splits)
  have n: "n = maxAttempts - correctionAttempts ?st'"
    using Suc by (simp add: retry_once_attempts)
  have s: "\<And>resp ac. correction_pending (snd (process (fullStream ?st') resp ac))"
    using retry_once_stream [of S process st] restarted by auto
  have le: "correctionAttempts ?st' \<le> maxAttempts"
    using lt by (simp add: retry_once_attempts)
  have "correction_loop maxAttempts S process ?st' =
        last_pass process ((retry_once S process ^^ n) ?st')"
    using Suc.hyps(1) [OF n s le] n by simp
  also have "(retry_once S process ^^ n) ?st' = (retry_once S process ^^ Suc n) st"
    by (simp add: funpow_swap1)
  finally show ?case using step Suc.hyps(2) by simp
qed

text \<open>
  C5. When the first stream and every restarted stream end aborted with a correction
  pending, the loop started with no attempt made restarts the stream exactly
  \<open>MAX_CORRECTION_ATTEMPTS\<close> times (two context messages each time) and then makes a
  last pass after which it leaves: the result is the state after that many restarts
  with the response of the last stream, kept as generated, and the correction still
  pending. The loop is a total function, so it returns for every behaviour of the
  model. The bound is the setting, or 2 when the setting is missing or 0.
\<close>

theorem correction_loop_bounded:
  assumes first: "\<And>resp ac. correction_pending (snd (process (fullStream st) resp ac))"
    and restarted: "\<And>msgs resp ac. correction_pending (snd (process (simpleStreamText msgs) resp ac))"
    and fresh: "correctionAttempts st = 0"
  shows "correction_loop (MAX_CORRECTION_ATTEMPTS setting) simpleStreamText process st =
           last_pass process
             ((retry_once simpleStreamText process ^^ MAX_CORRECTION_ATTEMPTS setting) st) \<and>
         correctionAttempts (correction_loop (MAX_CORRECTION_ATTEMPTS setting) simpleStreamText process st) =
           MAX_CORRECTION_ATTEMPTS setting \<and>
         length (chatMessages (correction_loop (MAX_CORRECTION_ATTEMPTS setting) simpleStreamText process st)) =
           length (chatMessages st) + 2 * MAX_CORRECTION_ATTEMPTS setting \<and>
         correction_pending
           (abortController (correction_loop (MAX_CORRECTION_ATTEMPTS setting) simpleStreamText process st)) \<and>
         MAX_CORRECTION_ATTEMPTS None = 2 \<and> MAX_CORRECTION_ATTEMPTS (Some 0) = 2 \<and>
         MAX_CORRECTION_ATTEMPTS (Some (Suc n)) = Suc n"
proof -
  let ?M = "MAX_CORRECTION_ATTEMPTS setting"
  let ?last = "(retry_once simpleStreamText process ^^ ?M) st"
  have u: "correction_loop ?M simpleStreamText process st = last_pass process ?last"
    using correction_loop_unroll [of process simpleStreamText st ?M, OF restarted first] fresh by simp
  have a: "correctionAttempts (last_pass process ?last) = ?M"
    using fresh by (simp add: last_pass_def retry_pow_attempts split: prod.splits)
  have l: "length (chatMessages (last_pass process ?last)) = length (chatMessages st) + 2 * ?M"
    by (simp add: last_pass_def retry_pow_messages split: prod.splits)
  have s: "\<And>resp ac. correction_pending (snd (process (fullStream ?last) resp ac))"
  proof (cases ?M)
    case 0
    then show "\<And>resp ac. correction_pending (snd (process (fullStream ?last) resp ac))"
      using first by simp
  next
    case (Suc k)
    then show "\<And>resp ac. correction_pending (snd (process (fullStream ?last) resp ac))"
      using retry_once_stream [of simpleStreamText process "(retry_once simpleStreamText process ^^ k) st"]
        restarted by auto
  qed
  have p: "correction_pending (abortController (last_pass process ?last))"
    using s [of "fullResponse ?last" "abortController ?last"]
    by (simp add: last_pass_def case_prod_beta)
  show ?thesis
    using u a l p by (simp add: MAX_CORRECTION_ATTEMPTS_def)
qed

lemma md_after_any: "detectMarkdownCodeBlock (resp @ fix_text)"
proof -
  let ?m = "m_seq (m_lit ''```'') (m_seq (m_star is_word) (m_seq (m_star is_space) (m_lit ''\<newline>'')))"
  have "?m ([], prev, lit ''```ts\<newline>const x = 1;\<newline>```'') \<noteq> []" for prev
    by (simp add: re_eval)
  moreover have "resp @ fix_text = (resp @ lit ''Here is the fix:\<newline>'') @ lit ''```ts\<newline>const x = 1;\<newline>```''"
    by (simp add: fix_text_def lit_def)
  ultimately show ?thesis
    unfolding detectMarkdownCodeBlock_def re_test_def re_test_from_iff by blast
qed

lemma fast_process_fence:
  "fast_process [fix_text] resp ac =
     (resp @ fix_text,
      \<lparr>aborted = True, correctionNeeded = Some (CACHED_CORRECTIONS ''markdown_code_block''),
       ac_violationType = Some ''markdown_code_block''\<rparr>)"
proof -
  have ne: "fix_text \<noteq> []" by (simp add: fix_text_def lit_def)
  have c: "CACHED_CORRECTIONS ''markdown_code_block'' \<noteq> []"
    by (simp add: CACHED_CORRECTIONS_def lit_def)
  show ?thesis
    using ne c
    by (simp add: fast_process_def handleTextDelta_def checkChunk_def new_FastMonitor_def
        md_after_any report_def)
qed

lemma fence_pending: "correction_pending (snd (fast_process [fix_text] resp ac))"
  by (simp add: fast_process_fence correction_pending_def CACHED_CORRECTIONS_def lit_def)

theorem correction_loop_bounded_witness:
  "correctionAttempts (correction_loop (MAX_CORRECTION_ATTEMPTS None) fence_model fast_process fence_start) = 2 \<and>
   length (chatMessages (correction_loop (MAX_CORRECTION_ATTEMPTS None) fence_model fast_process fence_start)) = 5 \<and>
   fullResponse (correction_loop (MAX_CORRECTION_ATTEMPTS None) fence_model fast_process fence_start) =
     fix_text @ fix_text @ fix_text \<and>
   aborted (abortController (correction_loop (MAX_CORRECTION_ATTEMPTS None) fence_model fast_process fence_start))"
proof -
  have first: "\<And>resp ac. correction_pending (snd (fast_process (fullStream fence_start) resp ac))"
    by (simp add: fence_start_def fence_model_def fence_pending)
  have restarted: "\<And>msgs resp ac. correction_pending (snd (fast_process (fence_model msgs) resp ac))"
    by (simp add: fence_model_def fence_pending)
  have fresh: "correctionAttempts fence_start = 0"
    by (simp add: fence_start_def)
  note t = correction_loop_bounded [of fast_process fence_start fence_model None, OF first restarted fresh]
  have r: "(retry_once fence_model fast_process ^^ 2) fence_start =
      \<lparr>correctionAttempts = 2,
       chatMessages = [(''user'', lit ''fix it''),
          (''assistant'', fix_text), (''system'', CACHED_CORRECTIONS ''markdown_code_block''),
          (''assistant'', fix_text @ fix_text), (''system'', CACHED_CORRECTIONS ''markdown_code_block'')],
       fullResponse = fix_text @ fix_text,
       abortController = new_AbortController,
       fullStream = [fix_text]\<rparr>"
    by (simp add: numeral_2_eq_2 retry_once_def fence_start_def fence_model_def fast_process_fence
        resume_with_correction_def)
  from t have "correction_loop (MAX_CORRECTION_ATTEMPTS None) fence_model fast_process fence_start =
      last_pass fast_process ((retry_once fence_model fast_process ^^ 2) fence_start)"
    by (simp add: MAX_CORRECTION_ATTEMPTS_def)
  then show ?thesis
    by (simp add: r last_pass_def fast_process_fence)
qed

section \<open>The corrective agent and its delimiters\<close>

lemma split_first_Some:
  "split_first pat s = Some (b, a) \<Longrightarrow> s = b @ pat @ a"
proof (induction s arbitrary: b)
  case Nil
  then show ?case by (simp split: if_splits)
next
  case (Cons c cs)
  show ?case
  proof (cases "prefix pat (c # cs)")
    case True
    with Cons.prems show ?thesis by (auto simp: prefix_def)
  next
    case False
    with Cons.prems obtain b' where "split_first pat cs = Some (b', a)" "b = c # b'"
      by (auto split: option.splits)
    with Cons.IH show ?thesis by simp
  qed
qed

lemma split_first_None:
  "pat \<noteq> [] \<Longrightarrow> split_first pat s = None \<longleftrightarrow> \<not> sublist pat s"
  by (induction s) (auto simp: sublist_Cons_right split: option.splits)

text \<open>The lazy group followed by a literal: the first way to match ends at the first
  occurrence of the literal, and captures the text before it.\<close>

lemma lazy_group_then_lit:
  assumes "p \<noteq> []"
  shows "case split_first (lit p) s of
           None \<Rightarrow>
             concat (map (\<lambda>(prev', r). m_lit p (caps @ [take (length (pre @ s) - length r) (pre @ s)], prev', r))
               (star_lazy any_char prev s)) = []
         | Some (body, after) \<Rightarrow>
             \<exists>rest. concat (map (\<lambda>(prev', r). m_lit p (caps @ [take (length (pre @ s) - length r) (pre @ s)], prev', r))
               (star_lazy any_char prev s)) = (caps @ [pre @ body], Some (last (lit p)), after) # rest"
proof (induction s arbitrary: pre prev)
  case Nil
  from assms show ?case by (simp add: m_lit_def lit_def)
next
  case (Cons c cs)
  have shift: "(\<lambda>(prev', r). m_lit p (caps @ [take (length (pre @ c # cs) - length r) (pre @ c # cs)], prev', r)) =
               (\<lambda>(prev', r). m_lit p (caps @ [take (length ((pre @ [c]) @ cs) - length r) ((pre @ [c]) @ cs)], prev', r))"
    by simp
  show ?case
  proof (cases "prefix (lit p) (c # cs)")
    case True
    with assms show ?thesis by (simp add: m_lit_def any_char_def length_lit)
  next
    case False
    with Cons.IH [of "pre @ [c]" "Some c"] show ?thesis
      unfolding shift by (auto simp: m_lit_def any_char_def split: option.splits)
  qed
qed

lemma m_seq_group_lazy_lit:
  "m_seq (m_group (m_star_lazy any_char)) (m_lit p) (caps, prev, s) =
     concat (map (\<lambda>(prev', r). m_lit p (caps @ [take (length s - length r) s], prev', r))
       (star_lazy any_char prev s))"
  unfolding m_seq_def m_group_def m_star_lazy_def
  by (simp add: comp_def) (intro arg_cong [where f = concat] map_cong refl, auto)

lemma lazy_group_lit_result:
  assumes "p \<noteq> []"
  shows "case split_first (lit p) s of
           None \<Rightarrow> m_seq (m_group (m_star_lazy any_char)) (m_lit p) (caps, prev, s) = []
         | Some (body, after) \<Rightarrow>
             \<exists>rest. m_seq (m_group (m_star_lazy any_char)) (m_lit p) (caps, prev, s) =
               (caps @ [body], Some (last (lit p)), after) # rest"
  using lazy_group_then_lit [OF assms, where pre = "[]" and s = s and caps = caps and prev = prev]
  by (simp only: append_Nil m_seq_group_lazy_lit)

lemma corrective_open_length: "length ''<corrective-instruction>'' = 24"
  by simp

lemma corrective_here:
  "match_here correctiveRegex prev i s =
     (if prefix (lit ''<corrective-instruction>'') s
      then (case split_first (lit ''</corrective-instruction>'') (drop 24 s) of
              None \<Rightarrow> None
            | Some (body, after) \<Rightarrow>
                Some \<lparr>index = i, matched = take (length s - length after) s, groups = [body]\<rparr>)
      else None)"
proof (cases "prefix (lit ''<corrective-instruction>'') s")
  case False
  then show ?thesis
    by (simp add: match_here_def correctiveRegex_def m_seq_lit_n [OF corrective_open_length])
next
  case True
  have ne: "''</corrective-instruction>'' \<noteq> []" by simp
  note l = lazy_group_lit_result [OF ne, where s = "drop 24 s" and caps = "[]"
      and prev = "Some (last (lit ''<corrective-instruction>''))"]
  show ?thesis
  proof (cases "split_first (lit ''</corrective-instruction>'') (drop 24 s)")
    case None
    with l True show ?thesis
      by (simp add: match_here_def correctiveRegex_def m_seq_lit_n [OF corrective_open_length])
  next
    case (Some ba)
    obtain body after where ba: "ba = (body, after)" by (cases ba)
    with l Some True show ?thesis
      by (auto simp: match_here_def correctiveRegex_def m_seq_lit_n [OF corrective_open_length])
  qed
qed

lemma first_delimited_sublist:
  assumes "first_delimited s = Some b"
  shows "sublist (lit ''</corrective-instruction>'') (drop 23 s)"
proof -
  from assms obtain before rest body after where
    1: "split_first (lit ''<corrective-instruction>'') s = Some (before, rest)" and
    2: "split_first (lit ''</corrective-instruction>'') rest = Some (body, after)"
    by (auto simp: first_delimited_def split: option.splits)
  from split_first_Some [OF 1] split_first_Some [OF 2]
  have s: "s = (before @ lit ''<corrective-instruction>'') @ body @ lit ''</corrective-instruction>'' @ after"
    by simp
  have "23 \<le> length (before @ lit ''<corrective-instruction>'')"
    by (simp add: length_lit)
  then have "drop 23 s = drop 23 (before @ lit ''<corrective-instruction>'') @
      body @ lit ''</corrective-instruction>'' @ after"
    by (subst s) (simp del: append_assoc)
  then show ?thesis
    unfolding sublist_def by (metis append.assoc)
qed

lemma split_first_prefix_n:
  "prefix pat s \<Longrightarrow> length pat = n \<Longrightarrow> s \<noteq> [] \<Longrightarrow> split_first pat s = Some ([], drop n s)"
  by (cases s) auto

lemma first_delimited_prefix:
  assumes "prefix (lit ''<corrective-instruction>'') s"
  shows "first_delimited s =
     (case split_first (lit ''</corrective-instruction>'') (drop 24 s) of
        None \<Rightarrow> None | Some (body, after) \<Rightarrow> Some body)"
proof -
  have n: "length (lit ''<corrective-instruction>'') = 24" by (simp add: lit_def)
  from assms have "s \<noteq> []" by (auto simp: lit_def)
  from split_first_prefix_n [OF assms n this] show ?thesis
    by (simp add: first_delimited_def)
qed

lemma corrective_first:
  "map_option groups (re_match_from correctiveRegex prev i s) =
   map_option (\<lambda>b. [b]) (first_delimited s)"
proof (induction s arbitrary: prev i)
  case Nil
  show ?case by (simp add: corrective_here first_delimited_def lit_def)
next
  case (Cons c cs)
  show ?case
  proof (cases "prefix (lit ''<corrective-instruction>'') (c # cs)")
    case False
    then have "first_delimited (c # cs) = first_delimited cs"
      by (simp add: first_delimited_def split: option.splits)
    with False Cons.IH [of "Some c" "Suc i"] show ?thesis
      by (simp add: corrective_here)
  next
    case True
    show ?thesis
    proof (cases "split_first (lit ''</corrective-instruction>'') (drop 24 (c # cs))")
      case (Some ba)
      obtain body after where "ba = (body, after)" by (cases ba)
      with Some True first_delimited_prefix [OF True] show ?thesis
        by (simp add: corrective_here)
    next
      case None
      then have "\<not> sublist (lit ''</corrective-instruction>'') (drop 23 cs)"
        by (simp add: split_first_None lit_def)
      with first_delimited_sublist [of cs] have "first_delimited cs = None"
        by (cases "first_delimited cs") auto
      moreover from None first_delimited_prefix [OF True] have "first_delimited (c # cs) = None"
        by simp
      ultimately show ?thesis
        using True None Cons.IH [of "Some c" "Suc i"] by (simp add: corrective_here)
    qed
  qed
qed

text \<open>
  C9 as amended. \<^verbatim>\<open>attemptCorrection\<close> returns a result for every outcome of the router
  call. It returns shouldRetry true, with the trimmed text as prompt and no reason,
  exactly when the router replied and the text between the first opening delimiter
  and the first closing delimiter after it is not empty; in every other case (the
  call threw, a delimiter is missing, nothing stands between the delimiters) it
  returns shouldRetry false with a reason and no prompt.
\<close>

theorem attemptCorrection_by_delimiters:
  "attemptCorrection outcome = correction_by_delimiters outcome \<and>
   shouldRetry (attemptCorrection outcome) =
     (case outcome of
        Inl error_message \<Rightarrow> False
      | Inr reply \<Rightarrow> (case first_delimited reply of None \<Rightarrow> False | Some body \<Rightarrow> body \<noteq> [])) \<and>
   (reason (attemptCorrection outcome) = None) = shouldRetry (attemptCorrection outcome) \<and>
   (prompt (attemptCorrection outcome) \<noteq> None) = shouldRetry (attemptCorrection outcome)"
proof -
  have eq: "attemptCorrection outcome = correction_by_delimiters outcome"
  proof (cases outcome)
    case (Inl e)
    then show ?thesis by (simp add: attemptCorrection_def correction_by_delimiters_def)
  next
    case (Inr reply)
    from corrective_first [of None 0 reply] show ?thesis
      unfolding Inr attemptCorrection_def correction_by_delimiters_def re_match_first_def
      by (cases "re_match_from correctiveRegex None 0 reply"; cases "first_delimited reply") auto
  qed
  show ?thesis
    unfolding eq
    by (auto simp: correction_by_delimiters_def no_tags_found_def split: sum.splits option.splits)
qed

text \<open>
  C9 as stated fails: the reply \<^verbatim>\<open><corrective-instruction></corrective-instruction>\<close>
  contains the delimiter pair (the pattern matches it), and the result is shouldRetry
  false with the reason that no tags were found.
\<close>

theorem empty_instruction_not_retried:
  "re_test correctiveRegex empty_instruction_reply \<and>
   first_delimited empty_instruction_reply = Some [] \<and>
   shouldRetry (attemptCorrection (Inr empty_instruction_reply)) = False \<and>
   reason (attemptCorrection (Inr empty_instruction_reply)) =
     Some (lit ''Could not generate corrective instruction (no tags found)'')"
  by (simp add: attemptCorrection_def empty_instruction_reply_def correctiveRegex_def
      first_delimited_def no_tags_found_def re_eval)

lemma plain_instruction_retried:
  "attemptCorrection (Inr plain_instruction_reply) =
     \<lparr>shouldRetry = True, prompt = Some (lit ''Use dyad-write tags.''), reason = None\<rparr>"
  by (simp add: attemptCorrection_def plain_instruction_reply_def correctiveRegex_def trim_def re_eval)

section \<open>Unclosed write tags\<close>

lemma writeOpenRegex_tag: "writeOpenRegex = tagOpenRegex ''<dyad-write''"
  by (simp add: writeOpenRegex_def tagOpenRegex_def)

lemma open_tail_result:
  "m_seq (m_star (not_char ''>'')) (m_lit ''>'') (caps, prev, s) =
     (if 62 \<in> set s
      then [(caps, Some 62, drop (Suc (length (takeWhile (not_char ''>'') s))) s)] else [])"
proof (induction s arbitrary: prev)
  case Nil
  show ?case by (simp add: m_seq_def m_star_def m_lit_def lit_gt)
next
  case (Cons c cs)
  show ?case
  proof (cases "c = 62")
    case True
    then have "star_greedy (not_char ''>'') prev (c # cs) = [(prev, c # cs)]"
      and "takeWhile (not_char ''>'') (c # cs) = []"
      by (simp_all add: not_char_def lit_gt)
    with True show ?thesis by (simp add: m_seq_def m_star_def m_lit_def lit_gt)
  next
    case False
    then have "star_greedy (not_char ''>'') prev (c # cs) =
        star_greedy (not_char ''>'') (Some c) cs @ [(prev, c # cs)]"
      by (simp add: not_char_def lit_gt)
    then have "m_seq (m_star (not_char ''>'')) (m_lit ''>'') (caps, prev, c # cs) =
        m_seq (m_star (not_char ''>'')) (m_lit ''>'') (caps, Some c, cs) @ m_lit ''>'' (caps, prev, c # cs)"
      by (simp add: m_seq_def m_star_def)
    moreover have "m_lit ''>'' (caps, prev, c # cs) = []"
      using False by (simp add: m_lit_def lit_gt)
    ultimately have step: "m_seq (m_star (not_char ''>'')) (m_lit ''>'') (caps, prev, c # cs) =
        m_seq (m_star (not_char ''>'')) (m_lit ''>'') (caps, Some c, cs)" by simp
    have tw: "takeWhile (not_char ''>'') (c # cs) = c # takeWhile (not_char ''>'') cs"
      using False by (simp add: not_char_def lit_gt)
    show ?thesis
      unfolding step Cons.IH tw using False by simp
  qed
qed

lemma match_here_open:
  "match_here writeOpenRegex prev i s =
     (if starts_with_open_tag s
      then Some \<lparr>index = i,
                 matched = take (12 + length (takeWhile (not_char ''>'') (drop 11 s))) s,
                 groups = []\<rparr>
      else None)"
proof (cases "starts_with_open_tag s")
  case False
  have n: "length ''<dyad-write'' = 11" by simp
  from False show ?thesis
    by (simp add: match_here_def writeOpenRegex_def m_seq_lit_n [OF n] open_tail_result
        starts_with_open_tag_def)
next
  case True
  let ?t = "length (takeWhile (not_char ''>'') (drop 11 s))"
  have n: "length ''<dyad-write'' = 11" by simp
  from True have lt: "?t < length s - 11"
    using takeWhile_not_gt [of "drop 11 s"] by (simp add: starts_with_open_tag_def)
  then have len: "length s - length (drop (Suc ?t) (drop 11 s)) = 12 + ?t"
    by simp
  have "writeOpenRegex ([], prev, s) = [([], Some 62, drop (Suc ?t) (drop 11 s))]"
    using True
    by (simp only: writeOpenRegex_def m_seq_lit_n [OF n] open_tail_result starts_with_open_tag_def if_True)
  then show ?thesis
    using True by (simp only: match_here_def list.case prod.case len if_True)
qed

lemma open_match_length:
  assumes "starts_with_open_tag s"
  shows "12 + length (takeWhile (not_char ''>'') (drop 11 s)) \<le> length s"
  using assms takeWhile_not_gt [of "drop 11 s"] by (auto simp: starts_with_open_tag_def)

lemma re_test_lit: "re_test (m_lit p) s \<longleftrightarrow> sublist (lit p) s"
proof -
  have "re_test (m_lit p) s \<longleftrightarrow> (\<exists>pre suf. s = pre @ suf \<and> prefix (lit p) suf)"
    by (simp add: re_test_def re_test_from_iff)
  also have "\<dots> \<longleftrightarrow> sublist (lit p) s"
    unfolding sublist_def prefix_def by auto
  finally show ?thesis .
qed

lemma prefix_drop_nth:
  assumes "prefix xs (drop n ys)" "x < length xs"
  shows "ys ! (n + x) = xs ! x"
proof -
  from assms obtain zs where d: "drop n ys = xs @ zs" by (auto simp: prefix_def)
  with assms(2) have "n \<le> length ys" by (cases "n \<le> length ys") auto
  then have "ys ! (n + x) = drop n ys ! x" by simp
  with d assms(2) show ?thesis by (simp add: nth_append)
qed

lemma sublist_iff_prefix_drop: "sublist xs ys \<longleftrightarrow> (\<exists>c. prefix xs (drop c ys))"
proof
  assume "sublist xs ys"
  then obtain ps ss where "ys = ps @ xs @ ss" by (auto simp: sublist_def)
  then have "prefix xs (drop (length ps) ys)" by simp
  then show "\<exists>c. prefix xs (drop c ys)" ..
next
  assume "\<exists>c. prefix xs (drop c ys)"
  then obtain c zs where "drop c ys = xs @ zs" by (auto simp: prefix_def)
  then have "ys = take c ys @ xs @ zs" by (metis append_take_drop_id)
  then show "sublist xs ys" unfolding sublist_def by blast
qed

text \<open>An opening tag that starts inside the match of an earlier one: every closing
  tag behind the start of the earlier one lies behind the start of the later one.\<close>

lemma close_after_inner_open:
  assumes u: "starts_with_open_tag u"
    and q: "starts_with_open_tag (drop q u)" "0 < q"
      "q < 12 + length (takeWhile (not_char ''>'') (drop 11 u))"
    and cl: "sublist (lit ''</dyad-write>'') u"
  shows "sublist (lit ''</dyad-write>'') (drop q u)"
proof -
  let ?t = "length (takeWhile (not_char ''>'') (drop 11 u))"
  from cl obtain c where c: "prefix (lit ''</dyad-write>'') (drop c u)"
    by (auto simp: sublist_iff_prefix_drop)
  show ?thesis
  proof (cases "q \<le> c")
    case True
    then have "drop c u = drop (c - q) (drop q u)" by simp
    with c show ?thesis by (auto simp: sublist_iff_prefix_drop)
  next
    case False
    have pu: "prefix (lit ''<dyad-write'') (drop 0 u)"
      using u by (simp add: starts_with_open_tag_def)
    have pq: "prefix (lit ''<dyad-write'') (drop q u)"
      using q(1) by (simp add: starts_with_open_tag_def)
    have u1: "u ! 1 = 100"
      using prefix_drop_nth [OF pu, of 1] by (simp add: lit_def)
    have c1: "u ! (c + 1) = 47" and c12: "u ! (c + 12) = 62"
      using prefix_drop_nth [OF c, of 1] prefix_drop_nth [OF c, of 12] by (simp_all add: lit_def)
    have q0: "u ! q = 60"
      using prefix_drop_nth [OF pq, of 0] by (simp add: lit_def)
    have qx: "u ! (q + x) \<noteq> 62" if "x < 11" for x
    proof -
      have "lit ''<dyad-write'' ! x \<noteq> 62"
        using that by (simp add: lit_def nth_Cons split: nat.splits)
      with prefix_drop_nth [OF pq, of x] that show ?thesis by (simp add: lit_def)
    qed
    have tlt: "?t < length (drop 11 u)"
      using u takeWhile_not_gt [of "drop 11 u"] by (simp add: starts_with_open_tag_def)
    have before: "u ! (11 + x) \<noteq> 62" if "x < ?t" for x
    proof -
      from that have "takeWhile (not_char ''>'') (drop 11 u) ! x \<in> set (takeWhile (not_char ''>'') (drop 11 u))"
        by simp
      then have "not_char ''>'' (takeWhile (not_char ''>'') (drop 11 u) ! x)"
        by (rule set_takeWhileD [THEN conjunct2])
      moreover have "takeWhile (not_char ''>'') (drop 11 u) ! x = drop 11 u ! x"
        using that by (rule takeWhile_nth)
      moreover have "drop 11 u ! x = u ! (11 + x)"
        using tlt by simp
      ultimately show ?thesis by (simp add: not_char_def lit_gt)
    qed
    have at: "u ! (11 + ?t) = 62"
    proof -
      from tlt have "\<not> not_char ''>'' (drop 11 u ! ?t)" by (rule nth_length_takeWhile)
      moreover have "drop 11 u ! ?t = u ! (11 + ?t)" using tlt by simp
      ultimately show ?thesis by (simp add: not_char_def lit_gt)
    qed
    have "c \<noteq> 0"
    proof
      assume "c = 0"
      with c1 have "u ! 1 = 47" by simp
      with u1 show False by simp
    qed
    have "?t \<le> c + 1"
    proof (rule ccontr)
      assume "\<not> ?t \<le> c + 1"
      then have "c + 1 < ?t" by simp
      from before [OF this] c12 show False by (simp add: add.commute add.left_commute)
    qed
    moreover have "q \<le> ?t"
    proof (rule ccontr)
      assume "\<not> q \<le> ?t"
      with q(3) have "11 + ?t - q < 11" "q + (11 + ?t - q) = 11 + ?t" by simp_all
      with qx [of "11 + ?t - q"] at show False by simp
    qed
    ultimately have "q = c + 1" using False \<open>c \<noteq> 0\<close> by simp
    with q0 c1 show ?thesis by simp
  qed
qed

text \<open>The scan for opening tags in a text \<open>T = pre @ s\<close>, resumed at \<open>s\<close> with \<open>k\<close>
  code units to skip: every match is an opening tag of \<open>T\<close>, and every opening tag
  of \<open>T\<close> behind the skipped part starts before the end of the last match.\<close>

lemma scan_open:
  assumes "T = pre @ s" "i = length pre"
  shows "(\<forall>r \<in> set (re_scan writeOpenRegex k prev i s).
            i + k \<le> index r \<and> starts_with_open_tag (drop (index r) T)) \<and>
         (\<forall>p. i + k \<le> p \<and> starts_with_open_tag (drop p T) \<longrightarrow>
            re_scan writeOpenRegex k prev i s \<noteq> [] \<and>
            p < index (last (re_scan writeOpenRegex k prev i s)) +
                (12 + length (takeWhile (not_char ''>'')
                   (drop 11 (drop (index (last (re_scan writeOpenRegex k prev i s))) T)))))"
  using assms
proof (induction s arbitrary: pre k prev i)
  case Nil
  then show ?case by (simp add: starts_with_open_tag_def lit_def)
next
  case (Cons c cs)
  let ?olen = "\<lambda>l. 12 + length (takeWhile (not_char ''>'') (drop 11 (drop l T)))"
  have T': "T = (pre @ [c]) @ cs" and i': "Suc i = length (pre @ [c])"
    using Cons.prems by simp_all
  note IH = Cons.IH [OF T' i']
  have here: "drop i T = c # cs" using Cons.prems by simp
  show ?case
  proof (cases "0 < k")
    case True
    then have eq: "re_scan writeOpenRegex k prev i (c # cs) =
        re_scan writeOpenRegex (k - 1) (Some c) (Suc i) cs" by simp
    from True have "Suc i + (k - 1) = i + k" by simp
    with IH [of "k - 1" "Some c"] show ?thesis unfolding eq by simp
  next
    case k0: False
    show ?thesis
    proof (cases "starts_with_open_tag (c # cs)")
      case False
      then have eq: "re_scan writeOpenRegex k prev i (c # cs) =
          re_scan writeOpenRegex 0 (Some c) (Suc i) cs"
        using k0 by (simp add: match_here_open)
      have "Suc i \<le> p" if "i + k \<le> p" "starts_with_open_tag (drop p T)" for p
      proof -
        from that(2) False here have "p \<noteq> i" by auto
        with that(1) show ?thesis by simp
      qed
      with IH [of 0 "Some c"] k0 show ?thesis unfolding eq by auto
    next
      case True
      let ?n = "12 + length (takeWhile (not_char ''>'') (drop 11 (c # cs)))"
      let ?r0 = "\<lparr>index = i, matched = take ?n (c # cs), groups = []\<rparr>"
      let ?rest = "re_scan writeOpenRegex (?n - 1) (Some c) (Suc i) cs"
      have n: "?n \<le> length (c # cs)" using open_match_length [OF True] .
      then have "length (matched ?r0) = ?n" by simp
      then have eq: "re_scan writeOpenRegex k prev i (c # cs) = ?r0 # ?rest"
        using k0 True by (simp add: match_here_open del: list.size)
      have bound: "Suc i + (?n - 1) = i + ?n" by simp
      note IHn = IH [of "?n - 1" "Some c", unfolded bound]
      have a: "\<forall>r \<in> set (?r0 # ?rest). i + k \<le> index r \<and> starts_with_open_tag (drop (index r) T)"
        using IHn True here k0 by auto
      have b: "p < index (last (?r0 # ?rest)) + ?olen (index (last (?r0 # ?rest)))"
        if p: "i + k \<le> p" "starts_with_open_tag (drop p T)" for p
      proof (cases "?rest = []")
        case True
        have "p < i + ?n"
        proof (rule ccontr)
          assume "\<not> p < i + ?n"
          with IHn p(2) have "?rest \<noteq> []" by auto
          with True show False by simp
        qed
        with True here show ?thesis by simp
      next
        case False
        then have l: "last (?r0 # ?rest) = last ?rest" by simp
        show ?thesis
        proof (cases "p < i + ?n")
          case False
          with IHn p(2) show ?thesis unfolding l by auto
        next
          case True
          from \<open>?rest \<noteq> []\<close> have "last ?rest \<in> set ?rest" by simp
          with IHn have "i + ?n \<le> index (last ?rest)" by blast
          with True show ?thesis unfolding l by simp
        qed
      qed
      from a b show ?thesis unfolding eq by blast
    qed
  qed
qed

lemma sc_a:
  "r \<in> set (re_scan writeOpenRegex 0 None 0 resp) \<Longrightarrow> starts_with_open_tag (drop (index r) resp)"
  using scan_open [where T = resp and pre = "[]" and s = resp and i = 0 and k = 0 and prev = None]
  by simp

lemma sc_b:
  "starts_with_open_tag (drop p resp) \<Longrightarrow>
     re_scan writeOpenRegex 0 None 0 resp \<noteq> [] \<and>
     p < index (last (re_scan writeOpenRegex 0 None 0 resp)) +
         (12 + length (takeWhile (not_char ''>'')
            (drop 11 (drop (index (last (re_scan writeOpenRegex 0 None 0 resp))) resp))))"
  using scan_open [where T = resp and pre = "[]" and s = resp and i = 0 and k = 0 and prev = None]
  by simp

lemma hasUnclosed_unfold:
  "hasUnclosedDyadWrite resp \<longleftrightarrow>
      re_scan writeOpenRegex 0 None 0 resp \<noteq> [] \<and>
      \<not> sublist (lit ''</dyad-write>'') (drop (index (last (re_scan writeOpenRegex 0 None 0 resp))) resp)"
proof (cases "re_scan writeOpenRegex 0 None 0 resp")
  case Nil
  then show ?thesis by (simp add: hasUnclosedDyadWrite_def re_match_all_def)
next
  case (Cons m ms)
  then show ?thesis
    by (simp only: hasUnclosedDyadWrite_def re_match_all_def list.case Let_def writeCloseRegex_def re_test_lit)
       simp
qed

text \<open>
  C1 as amended. \<^verbatim>\<open>hasUnclosedDyadWrite\<close> returns true exactly for the texts that
  contain an opening dyad-write tag with no closing tag anywhere behind its start.
  So it is true when the last opening tag is not closed, and false as soon as a
  closing tag follows the last opening tag, whatever the earlier tags are.
\<close>

theorem hasUnclosedDyadWrite_last_open:
  "hasUnclosedDyadWrite resp \<longleftrightarrow>
     (\<exists>pre suf. resp = pre @ suf \<and> starts_with_open_tag suf \<and>
                \<not> sublist (lit ''</dyad-write>'') suf)"
proof
  let ?ms = "re_scan writeOpenRegex 0 None 0 resp"
  let ?l = "index (last ?ms)"
  assume "hasUnclosedDyadWrite resp"
  then have ne: "?ms \<noteq> []" and nc: "\<not> sublist (lit ''</dyad-write>'') (drop ?l resp)"
    by (simp_all add: hasUnclosed_unfold)
  from ne have "last ?ms \<in> set ?ms" by (rule last_in_set)
  then have "starts_with_open_tag (drop ?l resp)" by (rule sc_a)
  with nc have "resp = take ?l resp @ drop ?l resp \<and> starts_with_open_tag (drop ?l resp) \<and>
      \<not> sublist (lit ''</dyad-write>'') (drop ?l resp)" by simp
  then show "\<exists>pre suf. resp = pre @ suf \<and> starts_with_open_tag suf \<and>
      \<not> sublist (lit ''</dyad-write>'') suf" by blast
next
  let ?ms = "re_scan writeOpenRegex 0 None 0 resp"
  let ?l = "index (last ?ms)"
  assume "\<exists>pre suf. resp = pre @ suf \<and> starts_with_open_tag suf \<and>
      \<not> sublist (lit ''</dyad-write>'') suf"
  then obtain pre suf where ps: "resp = pre @ suf" "starts_with_open_tag suf"
    "\<not> sublist (lit ''</dyad-write>'') suf" by blast
  let ?p = "length pre"
  from ps(1) have dp: "drop ?p resp = suf" by simp
  from ps(2) have "starts_with_open_tag (drop ?p resp)" by (simp only: dp)
  from sc_b [OF this] have ne: "?ms \<noteq> []"
    and lt: "?p < ?l + (12 + length (takeWhile (not_char ''>'') (drop 11 (drop ?l resp))))"
    by (rule conjunct1, rule conjunct2)
  from ne have "last ?ms \<in> set ?ms" by (rule last_in_set)
  then have ol: "starts_with_open_tag (drop ?l resp)" by (rule sc_a)
  have "\<not> sublist (lit ''</dyad-write>'') (drop ?l resp)"
  proof
    assume cl: "sublist (lit ''</dyad-write>'') (drop ?l resp)"
    show False
    proof (cases "?p \<le> ?l")
      case True
      then have "drop ?l resp = drop (?l - ?p) (drop ?p resp)" by simp
      with cl dp have "sublist (lit ''</dyad-write>'') (drop (?l - ?p) suf)" by simp
      then have "sublist (lit ''</dyad-write>'') suf" by (rule sublist_drop)
      with ps(3) show False by simp
    next
      case False
      then have d: "drop (?p - ?l) (drop ?l resp) = suf" using dp by simp
      from False have pos: "0 < ?p - ?l" by simp
      from False lt have lt': "?p - ?l < 12 + length (takeWhile (not_char ''>'') (drop 11 (drop ?l resp)))"
        by simp
      have "starts_with_open_tag (drop (?p - ?l) (drop ?l resp))"
        using ps(2) by (simp only: d)
      from close_after_inner_open [OF ol this pos lt' cl]
      have "sublist (lit ''</dyad-write>'') suf" by (simp only: d)
      with ps(3) show False by simp
    qed
  qed
  with ne show "hasUnclosedDyadWrite resp" by (simp add: hasUnclosed_unfold)
qed

text \<open>
  C1 as stated fails: in the text below the first opening tag is never closed (two
  opening tags, one closing tag; the tag structure check reports the mismatch), the
  second one is closed, and \<^verbatim>\<open>hasUnclosedDyadWrite\<close> returns false.
\<close>

theorem first_unclosed_not_detected:
  "length (re_match_all writeOpenRegex first_unclosed_text) = 2 \<and>
   length (re_match_all writeCloseRegex first_unclosed_text) = 1 \<and>
   validateDyadTagStructure first_unclosed_text \<noteq> [] \<and>
   hasUnclosedDyadWrite first_unclosed_text = False"
  by (simp add: hasUnclosedDyadWrite_def validateDyadTagStructure_def first_unclosed_text_def
      writeOpenRegex_def writeCloseRegex_def re_eval)

section \<open>Write paths in the documentation step\<close>



































section \<open>The monitors report a violation type once\<close>

lemma report_fields [simp]:
  "hasViolation (report k) = True" "violationType (report k) = Some k"
  "hasViolation no_violation = False" "violationType no_violation = None"
  by (simp_all add: report_def no_violation_def)






lemma fm_detects_seen [simp]:
  "fm_detects (m\<lparr>detectedViolations := s\<rparr>) kind t = fm_detects m kind t"
  by (simp add: fm_detects_def)


lemma checkChunks_Nil: "fst (checkChunks m []) = []" "snd (checkChunks m []) = m"
  by simp_all











































end
